theory Spec2Isabelle
  imports Complex_Main "HOL-Library.Sublist" "HOL-Library.Multiset" "HOL-Library.AList"
begin

section \<open>Text cleaning (\<open>clean_text\<close> of src/mlops/src/data.py)\<close>

text \<open>
  Strings are lists of characters. The model covers ASCII text: the character classes
  below are those of Python's \<open>re\<close> module on ASCII characters. The stopword list is
  the parameter \<open>stopwords\<close> of the source (its default, \<open>STOPWORDS\<close> of \<open>src.config\<close>, is
  not part of the module); each stopword stands for itself in the compiled pattern, so
  the model reads stopwords as literal strings (no regular-expression metacharacters).
\<close>

definition is_upper :: "char \<Rightarrow> bool" where
  "is_upper c = (65 \<le> (of_char c :: nat) \<and> (of_char c :: nat) \<le> 90)"

definition is_lower :: "char \<Rightarrow> bool" where
  "is_lower c = (97 \<le> (of_char c :: nat) \<and> (of_char c :: nat) \<le> 122)"

definition is_digit :: "char \<Rightarrow> bool" where
  "is_digit c = (48 \<le> (of_char c :: nat) \<and> (of_char c :: nat) \<le> 57)"

text \<open>The class \<open>[A-Za-z0-9]\<close>.\<close>

definition is_alnum :: "char \<Rightarrow> bool" where
  "is_alnum c = (is_upper c \<or> is_lower c \<or> is_digit c)"

text \<open>The class \<open>\w\<close> that decides \<open>\b\<close>: alphanumerics and the underscore.\<close>

definition is_word :: "char \<Rightarrow> bool" where
  "is_word c = (is_alnum c \<or> c = CHR ''_'')"

text \<open>The class \<open>\s\<close>: tab, newline, vertical tab, form feed, carriage return,
  the separators 28 to 31, and the space.\<close>

definition is_space :: "char \<Rightarrow> bool" where
  "is_space c = (let n = (of_char c :: nat) in (9 \<le> n \<and> n \<le> 13) \<or> (28 \<le> n \<and> n \<le> 32))"

text \<open>The class of the third step,
  \<open>[!"'#$%&()*\+,-./:;<=>?@\\\[\]^_`{|}~]\<close>: the range \<open>,-.\<close> holds the hyphen, so
  the class is all of ASCII punctuation.\<close>

definition is_punct :: "char \<Rightarrow> bool" where
  "is_punct c = (let n = (of_char c :: nat) in
     (33 \<le> n \<and> n \<le> 47) \<or> (58 \<le> n \<and> n \<le> 64) \<or> (91 \<le> n \<and> n \<le> 96) \<or> (123 \<le> n \<and> n \<le> 126))"

subsection \<open>Step 1: \<open>text.lower()\<close>\<close>

definition lower_char :: "char \<Rightarrow> char" where
  "lower_char c = (if is_upper c then char_of ((of_char c :: nat) + 32) else c)"

definition lower :: "string \<Rightarrow> string" where
  "lower s = map lower_char s"

subsection \<open>Step 2: \<open>re.compile(r"\b(" + "|".join(stopwords) + r")\b\s*").sub(" ", text)\<close>\<close>

text \<open>
  A position of the text is the character before it (\<open>None\<close> at the start) and the rest
  of the text from it. \<open>\b\<close> holds where exactly one of the two neighbours is a word
  character.
\<close>

definition prev_is_word :: "char option \<Rightarrow> bool" where
  "prev_is_word p = (case p of None \<Rightarrow> False | Some c \<Rightarrow> is_word c)"

definition next_is_word :: "string \<Rightarrow> bool" where
  "next_is_word rest = (case rest of [] \<Rightarrow> False | c # _ \<Rightarrow> is_word c)"

definition word_boundary :: "char option \<Rightarrow> string \<Rightarrow> bool" where
  "word_boundary p rest = (prev_is_word p \<noteq> next_is_word rest)"

text \<open>The character before the position reached after consuming \<open>u\<close>.\<close>

definition prev_after :: "char option \<Rightarrow> string \<Rightarrow> char option" where
  "prev_after p u = (if u = [] then p else Some (last u))"

text \<open>
  One alternative \<open>w\<close> of the group, then \<open>\b\<close>, then the greedy \<open>\s*\<close>: the length of
  the match from this position, if there is one.
\<close>

definition match_alt :: "char option \<Rightarrow> string \<Rightarrow> string \<Rightarrow> nat option" where
  "match_alt p rest w =
     (if prefix w rest \<and> word_boundary (prev_after p w) (drop (length w) rest)
      then Some (length w + length (takeWhile is_space (drop (length w) rest)))
      else None)"

text \<open>
  The alternatives are tried in the order of the list; the first that matches wins.
  After an empty match the engine asks for a match that advances (\<open>adv\<close>): an empty
  match then fails and the next alternative is tried.
\<close>

fun first_match :: "string list \<Rightarrow> char option \<Rightarrow> string \<Rightarrow> bool \<Rightarrow> nat option" where
  "first_match [] p rest adv = None"
| "first_match (w # ws) p rest adv =
     (case match_alt p rest w of
        None \<Rightarrow> first_match ws p rest adv
      | Some n \<Rightarrow> if adv \<and> n = 0 then first_match ws p rest adv else Some n)"

definition match_here :: "string list \<Rightarrow> char option \<Rightarrow> string \<Rightarrow> bool \<Rightarrow> nat option" where
  "match_here alts p rest adv =
     (if word_boundary p rest then first_match alts p rest adv else None)"

lemma first_match_advances: "first_match alts p rest True = Some n \<Longrightarrow> 0 < n"
  by (induction alts) (auto split: option.splits if_splits)

lemma match_alt_le: "match_alt p rest w = Some n \<Longrightarrow> n \<le> length rest"
proof -
  assume a: "match_alt p rest w = Some n"
  then have pw: "prefix w rest" and n: "n = length w + length (takeWhile is_space (drop (length w) rest))"
    by (auto simp: match_alt_def split: if_splits)
  have "length (takeWhile is_space (drop (length w) rest)) \<le> length (drop (length w) rest)"
    by (rule length_takeWhile_le)
  moreover have "length w \<le> length rest" using pw by (rule prefix_length_le)
  ultimately show ?thesis using n by simp
qed

lemma first_match_le: "first_match alts p rest adv = Some n \<Longrightarrow> n \<le> length rest"
  by (induction alts) (auto split: option.splits if_splits dest: match_alt_le)

lemma match_here_bounds:
  assumes "match_here alts p rest adv = Some n"
  shows "n \<le> length rest \<and> (adv \<longrightarrow> 0 < n)"
proof -
  from assms have fm: "first_match alts p rest adv = Some n"
    by (auto simp: match_here_def split: if_splits)
  have "n \<le> length rest" using fm by (rule first_match_le)
  moreover have "adv \<longrightarrow> 0 < n" using fm by (auto dest: first_match_advances)
  ultimately show ?thesis by simp
qed

text \<open>
  The substitution loop: at each position the leftmost match is replaced by one space
  and the scan goes on after it; where nothing matches, the character is copied.
\<close>

function sub_scan :: "string list \<Rightarrow> char option \<Rightarrow> string \<Rightarrow> bool \<Rightarrow> string" where
  "sub_scan alts p rest adv =
     (case match_here alts p rest adv of
        Some n \<Rightarrow> CHR '' '' # sub_scan alts (prev_after p (take n rest)) (drop n rest) (n = 0)
      | None \<Rightarrow> (case rest of [] \<Rightarrow> [] | c # cs \<Rightarrow> c # sub_scan alts (Some c) cs False))"
  by pat_completeness auto
termination
  by (relation "measure (\<lambda>(alts, p, rest, adv). 2 * length rest + (if adv then 0 else 1))")
     (auto dest: match_here_bounds)

text \<open>\<open>"|".join([])\<close> is the empty string: the group then has one, empty, alternative.\<close>

definition alternatives :: "string list \<Rightarrow> string list" where
  "alternatives stopwords = (if stopwords = [] then [[]] else stopwords)"

definition remove_stopwords :: "string list \<Rightarrow> string \<Rightarrow> string" where
  "remove_stopwords stopwords s = sub_scan (alternatives stopwords) None s False"

subsection \<open>Step 3: a space on each side of every punctuation character\<close>

fun space_punct :: "string \<Rightarrow> string" where
  "space_punct [] = []"
| "space_punct (c # cs) =
     (if is_punct c then CHR '' '' # c # CHR '' '' # space_punct cs else c # space_punct cs)"

subsection \<open>Step 4: \<open>re.sub("[^A-Za-z0-9]+", " ", text)\<close>\<close>

function squash_non_alnum :: "string \<Rightarrow> string" where
  "squash_non_alnum [] = []"
| "squash_non_alnum (c # cs) =
     (if is_alnum c then c # squash_non_alnum cs
      else CHR '' '' # squash_non_alnum (dropWhile (\<lambda>d. \<not> is_alnum d) cs))"
  by pat_completeness auto
termination
  by (relation "measure length") (auto simp: le_imp_less_Suc length_dropWhile_le)

subsection \<open>Step 5: \<open>re.sub(" +", " ", text)\<close> and \<open>text.strip()\<close>\<close>

function squash_spaces :: "string \<Rightarrow> string" where
  "squash_spaces [] = []"
| "squash_spaces (c # cs) =
     (if c = CHR '' '' then CHR '' '' # squash_spaces (dropWhile (\<lambda>d. d = CHR '' '') cs)
      else c # squash_spaces cs)"
  by pat_completeness auto
termination
  by (relation "measure length") (auto simp: le_imp_less_Suc length_dropWhile_le)

definition strip :: "string \<Rightarrow> string" where
  "strip s = rev (dropWhile is_space (rev (dropWhile is_space s)))"

subsection \<open>Step 6: \<open>re.sub(r"http\S+", "", text)\<close>\<close>

text \<open>A match is \<open>http\<close> followed by at least one character that is not white space;
  \<open>\S+\<close> is greedy and takes the whole run.\<close>

definition url_here :: "string \<Rightarrow> bool" where
  "url_here s = (prefix ''http'' s \<and> (case drop 4 s of [] \<Rightarrow> False | c # _ \<Rightarrow> \<not> is_space c))"

function strip_urls :: "string \<Rightarrow> string" where
  "strip_urls [] = []"
| "strip_urls (c # cs) =
     (if url_here (c # cs) then strip_urls (dropWhile (\<lambda>d. \<not> is_space d) (drop 4 (c # cs)))
      else c # strip_urls cs)"
  by pat_completeness auto
termination
proof (relation "measure length", goal_cases)
  case 1
  show ?case by simp
next
  case (2 c cs)
  have "length (dropWhile (\<lambda>d. \<not> is_space d) (drop 3 cs)) \<le> length (drop 3 cs)"
    by (rule length_dropWhile_le)
  then show ?case by simp
next
  case (3 c cs)
  show ?case by simp
qed

subsection \<open>The whole function\<close>

text \<open>The text after the first five steps, before the URL pattern is applied.\<close>

definition normalise :: "string \<Rightarrow> string list \<Rightarrow> string" where
  "normalise text stopwords =
     strip (squash_spaces (squash_non_alnum (space_punct
       (remove_stopwords stopwords (lower text)))))"

definition clean_text :: "string \<Rightarrow> string list \<Rightarrow> string" where
  "clean_text text stopwords = strip_urls (normalise text stopwords)"

subsection \<open>Tokens of a text\<close>

text \<open>
  The maximal runs of characters of a class, in order: \<open>runs_from\<close> gives the run the
  text starts with (empty if it starts outside the class) and the later runs.
\<close>

definition pack :: "string \<Rightarrow> string list \<Rightarrow> string list" where
  "pack r rs = (if r = [] then rs else r # rs)"

fun runs_from :: "(char \<Rightarrow> bool) \<Rightarrow> string \<Rightarrow> string \<times> string list" where
  "runs_from P [] = ([], [])"
| "runs_from P (c # cs) =
     (case runs_from P cs of (r, rs) \<Rightarrow> if P c then (c # r, rs) else ([], pack r rs))"

definition runs :: "(char \<Rightarrow> bool) \<Rightarrow> string \<Rightarrow> string list" where
  "runs P s = (case runs_from P s of (r, rs) \<Rightarrow> pack r rs)"

text \<open>The tokens of a text, as \<open>str.split()\<close> gives them: the maximal runs without
  white space.\<close>

definition tokens :: "string \<Rightarrow> string list" where
  "tokens s = runs (\<lambda>c. \<not> is_space c) s"

text \<open>\<open>u in s\<close> on strings.\<close>

fun contains :: "string \<Rightarrow> string \<Rightarrow> bool" where
  "contains [] u = (u = [])"
| "contains (c # cs) u = (prefix u (c # cs) \<or> contains cs u)"

text \<open>The words that start at or after a position: the leading run belongs to a word
  that began before the position when the character before it is a word character.\<close>

definition word_runs_after :: "char option \<Rightarrow> string \<Rightarrow> string list" where
  "word_runs_after p s = (if prev_is_word p then snd (runs_from is_word s) else runs is_word s)"

text \<open>\<open>" ".join(ts)\<close>, and the text of tokens each with a space before it.\<close>

definition spaced :: "string list \<Rightarrow> string" where
  "spaced ts = concat (map (\<lambda>t. CHR '' '' # t) ts)"

definition unwords :: "string list \<Rightarrow> string" where
  "unwords ts = (case ts of [] \<Rightarrow> [] | t # us \<Rightarrow> t @ spaced us)"

definition trail :: "string \<Rightarrow> string" where
  "trail s = (if s \<noteq> [] \<and> \<not> is_alnum (last s) then '' '' else [])"

definition good_tokens :: "(char \<Rightarrow> bool) \<Rightarrow> string list \<Rightarrow> bool" where
  "good_tokens P ts = (\<forall>t \<in> set ts. t \<noteq> [] \<and> (\<forall>c \<in> set t. P c))"

text \<open>
  The domain of the model: a stopword is literal when it has none of the characters that
  the pattern syntax reads as operators.
\<close>

definition regex_special :: "char \<Rightarrow> bool" where
  "regex_special c = (c \<in> set ''.^$*+?{}[]|()'' \<or> (of_char c :: nat) = 92)"

definition literal :: "string \<Rightarrow> bool" where
  "literal w = (\<forall>c \<in> set w. \<not> regex_special c)"

section \<open>Loading (\<open>load_data\<close>)\<close>

text \<open>
  The records read from the source location are the list \<open>source\<close>. The engine's
  \<open>random_shuffle\<close> is a parameter that takes the seed. \<open>ds.take(limit)\<close> gives the
  first \<open>limit\<close> records, or all of them when there are fewer.
\<close>

definition take_rows :: "int \<Rightarrow> 'a list \<Rightarrow> 'a list" where
  "take_rows limit ds = take (nat limit) ds"

text \<open>\<open>if num_samples\<close> is false for \<open>None\<close> and for \<open>0\<close>.\<close>

definition load_data :: "(int \<Rightarrow> 'a list \<Rightarrow> 'a list) \<Rightarrow> 'a list \<Rightarrow> int option \<Rightarrow> 'a list" where
  "load_data random_shuffle source num_samples =
     (let ds = random_shuffle 1234 source
      in case num_samples of
           None \<Rightarrow> ds
         | Some n \<Rightarrow> if n \<noteq> 0 then take_rows n ds else ds)"

section \<open>Frames\<close>

text \<open>
  A cell holds a string, a number or no value (\<open>Null\<close>: the missing value, NaN). A row maps
  the names of the columns of its frame to cells, and every other name to \<open>None\<close>: so
  \<open>r c = None\<close> says that the frame has no column \<open>c\<close>, and \<open>r c = Some Null\<close> that the
  column is there and the row has no value in it. A frame or a dataset is a list of rows.
\<close>

datatype cell = Str string | Num int | Null

type_synonym row = "string \<Rightarrow> cell option"

datatype error = ValueError | KeyError | TypeError | AttributeError

section \<open>Stratified split (\<open>stratify_split\<close>)\<close>

text \<open>
  \<open>train_test_split\<close> (scikit-learn) is the parameter \<open>tts\<close>: from the test fraction, the
  shuffle flag, the seed and a frame it gives a train and a test frame, or raises.
\<close>

type_synonym splitter = "real \<Rightarrow> bool \<Rightarrow> int \<Rightarrow> row list \<Rightarrow> error + (row list \<times> row list)"

definition set_split :: "string \<Rightarrow> row \<Rightarrow> row" where
  "set_split label r = r(''_split'' \<mapsto> Str label)"

definition add_split :: "splitter \<Rightarrow> real \<Rightarrow> bool \<Rightarrow> int \<Rightarrow> row list \<Rightarrow> error + row list" where
  "add_split tts test_size shuffle seed df =
     (case tts test_size shuffle seed df of
        Inl e \<Rightarrow> Inl e
      | Inr (train, test) \<Rightarrow> Inr (map (set_split ''train'') train @ map (set_split ''test'') test))"

definition drop_split :: "row \<Rightarrow> row" where
  "drop_split r = r(''_split'' := None)"

definition filter_split :: "row list \<Rightarrow> string \<Rightarrow> row list" where
  "filter_split df split = map drop_split (filter (\<lambda>r. r ''_split'' = Some (Str split)) df)"

text \<open>\<open>ds.groupby(stratify)\<close>: one group for each value of the column, holding the rows
  with that value; the rows without a value in the column (\<open>Some Null\<close>) are a group of
  their own. The engine refuses a column that the dataset does not have.\<close>

definition groupby :: "string \<Rightarrow> row list \<Rightarrow> error + row list list" where
  "groupby col ds =
     (if \<exists>r \<in> set ds. r col = None then Inl ValueError
      else Inr (map (\<lambda>k. filter (\<lambda>r. r col = k) ds) (remdups (map (\<lambda>r. r col) ds))))"

text \<open>\<open>map_groups\<close>: the function on each group, the results one after another; the
  first failure is the failure of the whole.\<close>

fun map_groups :: "(row list \<Rightarrow> error + row list) \<Rightarrow> row list list \<Rightarrow> error + row list" where
  "map_groups f [] = Inr []"
| "map_groups f (g # gs) =
     (case f g of
        Inl e \<Rightarrow> Inl e
      | Inr d \<Rightarrow> (case map_groups f gs of Inl e \<Rightarrow> Inl e | Inr ds \<Rightarrow> Inr (d @ ds)))"

text \<open>\<open>map_batches\<close>: the engine cuts the dataset into batches (\<open>batching\<close>, a
  parameter) and applies the function to each.\<close>

definition map_batches :: "('a list \<Rightarrow> 'a list list) \<Rightarrow> ('a list \<Rightarrow> 'b list) \<Rightarrow> 'a list \<Rightarrow> 'b list" where
  "map_batches batching f ds = concat (map f (batching ds))"

text \<open>
  The engine is lazy: \<open>grouped\<close> is a plan, not a stored dataset, and nothing in the
  function stores it. Each of \<open>train_ds\<close> and \<open>test_ds\<close> runs the plan for itself, so
  \<open>groupby\<close> and \<open>_add_split\<close> are carried out twice. What may differ between the two runs
  is the order in which the engine hands the rows of a group to \<open>_add_split\<close>: the
  parameter \<open>arrange\<close> gives that order for each run. The result is what the two datasets
  hold once they are computed; a failure of either run is the failure of the whole.
\<close>

datatype run = TrainRun | TestRun

definition grouped ::
  "splitter \<Rightarrow> (row list \<Rightarrow> row list) \<Rightarrow> row list \<Rightarrow> string \<Rightarrow> real \<Rightarrow> bool \<Rightarrow> int \<Rightarrow>
   error + row list" where
  "grouped tts order ds stratify test_size shuffle seed =
     (case groupby stratify ds of
        Inl e \<Rightarrow> Inl e
      | Inr groups \<Rightarrow> map_groups (add_split tts test_size shuffle seed) (map order groups))"

definition stratify_split ::
  "splitter \<Rightarrow> (int \<Rightarrow> row list \<Rightarrow> row list) \<Rightarrow> (row list \<Rightarrow> row list list) \<Rightarrow>
   (run \<Rightarrow> row list \<Rightarrow> row list) \<Rightarrow>
   row list \<Rightarrow> string \<Rightarrow> real \<Rightarrow> bool \<Rightarrow> int \<Rightarrow> error + (row list \<times> row list)" where
  "stratify_split tts random_shuffle batching arrange ds stratify test_size shuffle seed =
     (case grouped tts (arrange TrainRun) ds stratify test_size shuffle seed of
        Inl e \<Rightarrow> Inl e
      | Inr grouped_train \<Rightarrow>
          (case grouped tts (arrange TestRun) ds stratify test_size shuffle seed of
             Inl e \<Rightarrow> Inl e
           | Inr grouped_test \<Rightarrow>
               (let train_ds = map_batches batching (\<lambda>df. filter_split df ''train'') grouped_train;
                    test_ds = map_batches batching (\<lambda>df. filter_split df ''test'') grouped_test
                in Inr (random_shuffle seed train_ds, random_shuffle seed test_ds))))"

section \<open>Encoding (\<open>tokenize\<close>, \<open>preprocess\<close>)\<close>

record encoded =
  ids :: "nat list list"
  masks :: "nat list list"
  targets :: "nat option list"

text \<open>
  Modelled from the spec: the call of the pretrained tokenizer with
  \<open>padding="longest"\<close> is not code of this module. Its vocabulary and subword algorithm
  are the parameter \<open>encode\<close> (the ids of one text); the spec's data model gives the rest:
  token id sequences padded to the longest sequence in the batch, and attention masks of
  the same shape that mark real tokens (1) against padding (0). The tokenizer refuses an
  empty list of texts.
\<close>

definition longest :: "nat list list \<Rightarrow> nat" where
  "longest seqs = foldr (\<lambda>t m. max (length t) m) seqs 0"

definition pad_ids :: "nat \<Rightarrow> nat list \<Rightarrow> nat list" where
  "pad_ids n t = t @ replicate (n - length t) 0"

definition pad_mask :: "nat \<Rightarrow> nat list \<Rightarrow> nat list" where
  "pad_mask n t = replicate (length t) 1 @ replicate (n - length t) 0"

definition encode_batch ::
  "(string \<Rightarrow> nat list) \<Rightarrow> string list \<Rightarrow> error + (nat list list \<times> nat list list)" where
  "encode_batch encode txts =
     (if txts = [] then Inl ValueError
      else (let seqs = map encode txts; n = longest seqs
            in Inr (map (pad_ids n) seqs, map (pad_mask n) seqs)))"

text \<open>A batch at this point has the columns \<open>text\<close> and \<open>tag\<close>: a list of pairs.\<close>

definition tokenize :: "(string \<Rightarrow> nat list) \<Rightarrow> (string \<times> nat option) list \<Rightarrow> error + encoded" where
  "tokenize encode batch =
     (case encode_batch encode (map fst batch) of
        Inl e \<Rightarrow> Inl e
      | Inr (i, m) \<Rightarrow> Inr \<lparr>ids = i, masks = m, targets = map snd batch\<rparr>)"

text \<open>
  \<open>df.title + " " + df.description\<close>, in the order in which the expression is evaluated
  on whole columns: the attribute \<open>title\<close> (no such column: AttributeError), the sum with
  \<open>" "\<close> (a number in the column: TypeError), the attribute \<open>description\<close>, the second sum
  (a string plus a number: TypeError). A sum with a missing value is the missing value.
\<close>

definition is_num :: "cell option \<Rightarrow> bool" where
  "is_num c = (case c of Some (Num n) \<Rightarrow> True | _ \<Rightarrow> False)"

definition is_str :: "cell option \<Rightarrow> bool" where
  "is_str c = (case c of Some (Str t) \<Rightarrow> True | _ \<Rightarrow> False)"

definition joined :: "row \<Rightarrow> string option" where
  "joined r =
     (case (r ''title'', r ''description'') of
        (Some (Str t), Some (Str d)) \<Rightarrow> Some (t @ '' '' @ d)
      | _ \<Rightarrow> None)"

definition text_column :: "row list \<Rightarrow> error + string option list" where
  "text_column df =
     (if \<exists>r \<in> set df. r ''title'' = None then Inl AttributeError
      else if \<exists>r \<in> set df. is_num (r ''title'') then Inl TypeError
      else if \<exists>r \<in> set df. r ''description'' = None then Inl AttributeError
      else if \<exists>r \<in> set df. is_str (r ''title'') \<and> is_num (r ''description'') then Inl TypeError
      else Inr (map joined df))"

text \<open>\<open>df.text.apply(clean_text)\<close>: \<open>clean_text\<close> on each value; the missing value has no
  method \<open>lower\<close>.\<close>

fun clean_column :: "string list \<Rightarrow> string option list \<Rightarrow> error + string list" where
  "clean_column stopwords [] = Inr []"
| "clean_column stopwords (None # ts) = Inl AttributeError"
| "clean_column stopwords (Some t # ts) =
     (case clean_column stopwords ts of
        Inl e \<Rightarrow> Inl e
      | Inr cs \<Rightarrow> Inr (clean_text t stopwords # cs))"

definition texts :: "string list \<Rightarrow> row list \<Rightarrow> error + string list" where
  "texts stopwords df =
     (case text_column df of Inl e \<Rightarrow> Inl e | Inr col \<Rightarrow> clean_column stopwords col)"

text \<open>
  \<open>df[["text", "tag"]]\<close> needs a column \<open>tag\<close> (KeyError without it).
  \<open>df["tag"].map(class_to_index)\<close> looks each tag up in the dictionary; a tag that is
  not a key gives the missing value (\<open>None\<close> here), not an error.
\<close>

definition preprocess ::
  "(string \<Rightarrow> nat list) \<Rightarrow> string list \<Rightarrow> row list \<Rightarrow> (cell option \<Rightarrow> nat option) \<Rightarrow> error + encoded" where
  "preprocess encode stopwords df class_to_index =
     (case texts stopwords df of
        Inl e \<Rightarrow> Inl e
      | Inr ts \<Rightarrow>
          if \<exists>r \<in> set df. r ''tag'' = None then Inl KeyError
          else tokenize encode (zip ts (map (\<lambda>r. class_to_index (r ''tag'')) df)))"

section \<open>The preprocessor (\<open>CustomPreprocessor\<close>)\<close>

text \<open>
  A dictionary is an association list in insertion order; \<open>AList.update\<close> replaces the
  value of a key that is present and appends a new key, as a Python dictionary does.
\<close>

record preprocessor =
  class_to_index :: "(cell option \<times> nat) list"
  index_to_class :: "(nat \<times> cell option) list"

text \<open>\<open>{tag: i for i, tag in enumerate(tags)}\<close>\<close>

definition index_tags :: "cell option list \<Rightarrow> (cell option \<times> nat) list" where
  "index_tags tags = foldl (\<lambda>d (i, tag). AList.update tag i d) [] (enumerate 0 tags)"

text \<open>\<open>{v: k for k, v in d.items()}\<close>\<close>

definition invert :: "('k \<times> 'v) list \<Rightarrow> ('v \<times> 'k) list" where
  "invert d = foldl (\<lambda>e (k, v). AList.update v k e) [] d"

text \<open>\<open>ds.unique(column="tag")\<close> is the engine's: the parameter \<open>unique\<close>.\<close>

definition fit :: "(cell option list \<Rightarrow> cell option list) \<Rightarrow> row list \<Rightarrow> preprocessor" where
  "fit unique ds =
     (let tags = unique (map (\<lambda>r. r ''tag'') ds); c2i = index_tags tags
      in \<lparr>class_to_index = c2i, index_to_class = invert c2i\<rparr>)"

definition transform ::
  "(row list \<Rightarrow> row list list) \<Rightarrow> (string \<Rightarrow> nat list) \<Rightarrow> string list \<Rightarrow>
   preprocessor \<Rightarrow> row list \<Rightarrow> (error + encoded) list" where
  "transform batching encode stopwords p ds =
     map (\<lambda>df. preprocess encode stopwords df (map_of (class_to_index p))) (batching ds)"

section \<open>Sample parameters and data\<close>

text \<open>
  Concrete values for the parameters, used where a statement is instantiated: an engine
  whose shuffle reverses, a tokenizer with one id for each character, rows of the input
  format (columns \<open>id\<close>, \<open>created_on\<close>, \<open>title\<close>, \<open>description\<close>, \<open>tag\<close>).
\<close>

definition reverse_shuffle :: "int \<Rightarrow> 'a list \<Rightarrow> 'a list" where
  "reverse_shuffle seed xs = rev xs"

definition char_encode :: "string \<Rightarrow> nat list" where
  "char_encode s = map of_char s"

definition csv_row :: "string \<Rightarrow> string \<Rightarrow> string \<Rightarrow> string \<Rightarrow> string \<Rightarrow> row" where
  "csv_row i c t d g =
     (\<lambda>col. None)(''id'' \<mapsto> Str i, ''created_on'' \<mapsto> Str c, ''title'' \<mapsto> Str t,
                   ''description'' \<mapsto> Str d, ''tag'' \<mapsto> Str g)"

definition sample_batch :: "row list" where
  "sample_batch = [csv_row ''1'' ''2020-02-20'' ''Hi!'' ''Please Give'' ''nlp'',
                   csv_row ''2'' ''2020-03-03'' ''A'' ''b'' ''cv'']"

definition other_batch :: "row list" where
  "other_batch = [csv_row ''7'' ''2021-01-01'' ''Hi!'' ''Please Give'' ''nlp'',
                  csv_row ''8'' ''2021-01-02'' ''A'' ''b'' ''cv'']"

definition sample_index :: "cell option \<Rightarrow> nat option" where
  "sample_index = map_of [(Some (Str ''nlp''), 0)]"


text \<open>What the proofs ask of \<open>train_test_split\<close>: the two results divide the rows of
  the frame, and the test part has the size of the test fraction, rounded.\<close>

definition splits_rows :: "splitter \<Rightarrow> real \<Rightarrow> bool \<Rightarrow> int \<Rightarrow> bool" where
  "splits_rows tts ts sh seed =
     (\<forall>df tr te. tts ts sh seed df = Inr (tr, te) \<longrightarrow> mset tr + mset te = mset df)"

definition split_sizes :: "splitter \<Rightarrow> real \<Rightarrow> bool \<Rightarrow> int \<Rightarrow> bool" where
  "split_sizes tts ts sh seed =
     (\<forall>df tr te. tts ts sh seed df = Inr (tr, te) \<longrightarrow>
        \<bar>real (length te) - ts * real (length df)\<bar> < 1)"

text \<open>A splitter for the test fraction \<open>1/2\<close>, batches of the whole dataset, and a
  dataset with two classes.\<close>

definition halving_split :: splitter where
  "halving_split test_size shuffle seed df =
     (if length df < 2 then Inl ValueError
      else Inr (take (length df div 2) df, drop (length df div 2) df))"

definition single_batch :: "'a list \<Rightarrow> 'a list list" where
  "single_batch xs = [xs]"

text \<open>Two engines: one whose runs keep the order of the dataset, one whose second run
  meets the rows of a group in the opposite order.\<close>

definition same_order :: "run \<Rightarrow> row list \<Rightarrow> row list" where
  "same_order k g = g"




definition sample_dataset :: "row list" where
  "sample_dataset = [csv_row ''1'' ''2020-02-20'' ''a'' ''b'' ''nlp'',
                     csv_row ''2'' ''2020-02-21'' ''c'' ''d'' ''cv'',
                     csv_row ''3'' ''2020-02-22'' ''e'' ''f'' ''nlp'',
                     csv_row ''4'' ''2020-02-23'' ''g'' ''h'' ''cv'']"

section \<open>Properties of loading\<close>

text \<open>
  C4, as the code has it. With a shuffle that permutes its input: a sample count
  \<open>n > 0\<close> that the source can supply gives exactly the first \<open>n\<close> records of the
  shuffled dataset; without a sample count all records are returned, and a sample count
  of \<open>0\<close> is taken by the guard \<open>if num_samples\<close> as no sample count.
\<close>

theorem load_data_count:
  assumes "\<forall>xs. mset (random_shuffle 1234 xs) = mset (xs :: 'a list)"
  shows "(0 < n \<and> n \<le> int (length source) \<longrightarrow>
            load_data random_shuffle source (Some n) = take (nat n) (random_shuffle 1234 source)
          \<and> int (length (load_data random_shuffle source (Some n))) = n)
       \<and> mset (load_data random_shuffle source None) = mset source
       \<and> mset (load_data random_shuffle source (Some 0)) = mset source"
proof -
  have len: "length (random_shuffle 1234 source) = length source"
    using assms by (metis size_mset)
  show ?thesis
    using assms len by (auto simp: load_data_def take_rows_def Let_def)
qed

theorem load_data_count_witness:
  "(\<forall>xs. mset (reverse_shuffle 1234 xs) = mset (xs :: nat list))
   \<and> (0::int) < 2 \<and> (2::int) \<le> int (length [10, 20, 30 :: nat])
   \<and> load_data reverse_shuffle [10, 20, 30 :: nat] (Some 2) = [30, 20]
   \<and> int (length (load_data reverse_shuffle [10, 20, 30 :: nat] (Some 2))) = 2"
proof -
  have h: "\<forall>xs. mset (reverse_shuffle 1234 xs) = mset (xs :: nat list)"
    by (simp add: reverse_shuffle_def)
  show ?thesis
    using h load_data_count [of reverse_shuffle 2 "[10, 20, 30 :: nat]"]
    by (simp add: reverse_shuffle_def)
qed

text \<open>
  C4 as stated fails for the sample count \<open>0\<close>: the source has at least \<open>0\<close> records, and
  the result has three, not \<open>0\<close>.
\<close>

theorem load_data_zero_count_counterexample:
  "(0::int) \<le> int (length [10, 20, 30 :: nat])
   \<and> int (length (load_data reverse_shuffle [10, 20, 30 :: nat] (Some 0))) \<noteq> 0"
  by (simp add: load_data_def reverse_shuffle_def)

section \<open>Properties of the encoder\<close>

lemma longest_ge: "t \<in> set seqs \<Longrightarrow> length t \<le> longest seqs"
  by (induction seqs) (auto simp: longest_def)

lemma clean_column_length: "clean_column sw col = Inr ts \<Longrightarrow> length ts = length col"
  by (induction sw col arbitrary: ts rule: clean_column.induct) (auto split: sum.splits)

lemma texts_length: "texts sw df = Inr ts \<Longrightarrow> length ts = length df"
  by (auto simp: texts_def text_column_def split: sum.splits if_splits dest: clean_column_length)

lemma map_length_pad_ids:
  "map length (map (pad_ids (longest seqs)) seqs) = replicate (length seqs) (longest seqs)"
proof -
  have "\<And>t. t \<in> set seqs \<Longrightarrow> length (pad_ids (longest seqs) t) = longest seqs"
    using longest_ge by (fastforce simp: pad_ids_def)
  then show ?thesis by (simp add: map_replicate_const [symmetric] cong: map_cong)
qed

lemma map_length_pad_mask:
  "map length (map (pad_mask (longest seqs)) seqs) = replicate (length seqs) (longest seqs)"
proof -
  have "\<And>t. t \<in> set seqs \<Longrightarrow> length (pad_mask (longest seqs) t) = longest seqs"
    using longest_ge by (fastforce simp: pad_mask_def)
  then show ?thesis by (simp add: map_replicate_const [symmetric] cong: map_cong)
qed

lemma tokenize_Inr:
  assumes "tokenize encode batch = Inr out"
  shows "ids out = map (pad_ids (longest (map (encode \<circ> fst) batch))) (map (encode \<circ> fst) batch)
       \<and> masks out = map (pad_mask (longest (map (encode \<circ> fst) batch))) (map (encode \<circ> fst) batch)
       \<and> targets out = map snd batch"
  using assms
  by (auto simp: tokenize_def encode_batch_def Let_def split: sum.splits if_splits)

lemma sample_preprocess:
  "preprocess char_encode [''please''] sample_batch sample_index =
     Inr \<lparr>ids = [[104, 105, 32, 103, 105, 118, 101], [97, 32, 98, 0, 0, 0, 0]],
          masks = [[1, 1, 1, 1, 1, 1, 1], [1, 1, 1, 0, 0, 0, 0]],
          targets = [Some 0, None]\<rparr>"
  by code_simp

text \<open>
  C8. Whenever \<open>preprocess\<close> returns an encoded batch for a batch of \<open>n\<close> records, \<open>ids\<close>,
  \<open>masks\<close> and \<open>targets\<close> have \<open>n\<close> entries each, and every row of \<open>ids\<close> and of \<open>masks\<close>
  has the length of the longest token sequence of the batch.
\<close>

theorem encoded_shapes:
  assumes "preprocess encode stopwords df c2i = Inr out"
  shows "length (ids out) = length df \<and> length (masks out) = length df
       \<and> length (targets out) = length df
       \<and> (\<exists>ts. texts stopwords df = Inr ts
            \<and> map length (ids out) = replicate (length df) (longest (map encode ts))
            \<and> map length (masks out) = replicate (length df) (longest (map encode ts)))"
proof -
  from assms obtain ts where ts: "texts stopwords df = Inr ts"
    and out: "tokenize encode (zip ts (map (\<lambda>r. c2i (r ''tag'')) df)) = Inr out"
    by (auto simp: preprocess_def split: sum.splits if_splits)
  have len: "length ts = length df" using ts by (rule texts_length)
  have fst_zip: "map (encode \<circ> fst) (zip ts (map (\<lambda>r. c2i (r ''tag'')) df)) = map encode ts"
  proof -
    have "map fst (zip ts (map (\<lambda>r. c2i (r ''tag'')) df)) = ts"
      using len by (simp add: map_fst_zip)
    then have "map encode (map fst (zip ts (map (\<lambda>r. c2i (r ''tag'')) df))) = map encode ts"
      by (rule arg_cong)
    then show ?thesis by simp
  qed
  from tokenize_Inr [OF out]
  have i: "ids out = map (pad_ids (longest (map encode ts))) (map encode ts)"
    and m: "masks out = map (pad_mask (longest (map encode ts))) (map encode ts)"
    and t: "targets out = map snd (zip ts (map (\<lambda>r. c2i (r ''tag'')) df))"
    by (simp_all only: fst_zip)
  show ?thesis
    using ts len map_length_pad_ids [of "map encode ts"] map_length_pad_mask [of "map encode ts"]
    by (simp add: i m t)
qed

theorem encoded_shapes_witness:
  "preprocess char_encode [''please''] sample_batch sample_index =
     Inr \<lparr>ids = [[104, 105, 32, 103, 105, 118, 101], [97, 32, 98, 0, 0, 0, 0]],
          masks = [[1, 1, 1, 1, 1, 1, 1], [1, 1, 1, 0, 0, 0, 0]],
          targets = [Some 0, None]\<rparr>
   \<and> length [[104, 105, 32, 103, 105, 118, 101], [97, 32, 98, 0, 0, 0, 0 :: nat]] = length sample_batch
   \<and> length [Some 0, None :: nat option] = length sample_batch"
  using encoded_shapes [OF sample_preprocess] sample_preprocess by simp








lemma bex_map_cong:
  assumes "map f a = map f b"
  shows "(\<exists>r \<in> set a. Q (f r)) = (\<exists>r \<in> set b. Q (f r))"
proof -
  have "(\<exists>r \<in> set a. Q (f r)) = (\<exists>x \<in> set (map f a). Q x)" by auto
  also have "\<dots> = (\<exists>x \<in> set (map f b). Q x)" by (simp only: assms)
  also have "\<dots> = (\<exists>r \<in> set b. Q (f r))" by auto
  finally show ?thesis .
qed

lemma joined_cong:
  "map (\<lambda>r. (r ''title'', r ''description'')) a = map (\<lambda>r. (r ''title'', r ''description'')) b
   \<Longrightarrow> map joined a = map joined b"
proof (induction a arbitrary: b)
  case Nil
  then show ?case by simp
next
  case (Cons r a)
  then obtain r' b' where b: "b = r' # b'" by (cases b) auto
  with Cons.prems have hd: "r ''title'' = r' ''title''" "r ''description'' = r' ''description''"
    and tl: "map (\<lambda>r. (r ''title'', r ''description'')) a = map (\<lambda>r. (r ''title'', r ''description'')) b'"
    by auto
  have "joined r = joined r'" using hd by (simp add: joined_def)
  with Cons.IH [OF tl] b show ?case by simp
qed

lemma texts_cong:
  assumes "map (\<lambda>r. (r ''title'', r ''description'')) a = map (\<lambda>r. (r ''title'', r ''description'')) b"
  shows "texts stopwords a = texts stopwords b"
proof -
  have j: "map joined a = map joined b" using assms by (rule joined_cong)
  have c1: "(\<exists>r \<in> set a. r ''title'' = None) = (\<exists>r \<in> set b. r ''title'' = None)"
    using bex_map_cong [OF assms, of "\<lambda>p. fst p = None"] by simp
  have c2: "(\<exists>r \<in> set a. is_num (r ''title'')) = (\<exists>r \<in> set b. is_num (r ''title''))"
    using bex_map_cong [OF assms, of "\<lambda>p. is_num (fst p)"] by simp
  have c3: "(\<exists>r \<in> set a. r ''description'' = None) = (\<exists>r \<in> set b. r ''description'' = None)"
    using bex_map_cong [OF assms, of "\<lambda>p. snd p = None"] by simp
  have c4: "(\<exists>r \<in> set a. is_str (r ''title'') \<and> is_num (r ''description''))
          = (\<exists>r \<in> set b. is_str (r ''title'') \<and> is_num (r ''description''))"
    using bex_map_cong [OF assms, of "\<lambda>p. is_str (fst p) \<and> is_num (snd p)"] by simp
  have "text_column a = text_column b"
    by (simp only: text_column_def c1 c2 c3 c4 j)
  then show ?thesis by (simp only: texts_def)
qed

text \<open>
  C10. Two batches with the same title, description and tag columns give the same
  result of \<open>preprocess\<close> under the same mapping, whatever their \<open>id\<close> and \<open>created_on\<close>
  columns (and any other column) hold.
\<close>

theorem preprocess_ignores_id_and_timestamp:
  assumes "map (\<lambda>r. (r ''title'', r ''description'', r ''tag'')) a
         = map (\<lambda>r. (r ''title'', r ''description'', r ''tag'')) b"
  shows "preprocess encode stopwords a c2i = preprocess encode stopwords b c2i"
proof -
  have td: "map (\<lambda>r. (r ''title'', r ''description'')) a = map (\<lambda>r. (r ''title'', r ''description'')) b"
  proof -
    have "map (\<lambda>p. (fst p, fst (snd p))) (map (\<lambda>r. (r ''title'', r ''description'', r ''tag'')) a)
        = map (\<lambda>p. (fst p, fst (snd p))) (map (\<lambda>r. (r ''title'', r ''description'', r ''tag'')) b)"
      using assms by (rule arg_cong)
    then show ?thesis by (simp add: comp_def)
  qed
  have tags: "map (\<lambda>r. r ''tag'') a = map (\<lambda>r. r ''tag'') b"
  proof -
    have "map (\<lambda>p. snd (snd p)) (map (\<lambda>r. (r ''title'', r ''description'', r ''tag'')) a)
        = map (\<lambda>p. snd (snd p)) (map (\<lambda>r. (r ''title'', r ''description'', r ''tag'')) b)"
      using assms by (rule arg_cong)
    then show ?thesis by (simp add: comp_def)
  qed
  have tg: "map (\<lambda>r. c2i (r ''tag'')) a = map (\<lambda>r. c2i (r ''tag'')) b"
  proof -
    have "map c2i (map (\<lambda>r. r ''tag'') a) = map c2i (map (\<lambda>r. r ''tag'') b)"
      using tags by (rule arg_cong)
    then show ?thesis by (simp add: comp_def)
  qed
  have col: "(\<exists>r \<in> set a. r ''tag'' = None) = (\<exists>r \<in> set b. r ''tag'' = None)"
    using tags by (rule bex_map_cong)
  show ?thesis
    by (simp only: preprocess_def texts_cong [OF td, of stopwords] tg col)
qed

theorem preprocess_ignores_id_and_timestamp_witness:
  "map (\<lambda>r. (r ''title'', r ''description'', r ''tag'')) sample_batch
     = map (\<lambda>r. (r ''title'', r ''description'', r ''tag'')) other_batch
   \<and> map (\<lambda>r. (r ''id'', r ''created_on'')) sample_batch
     \<noteq> map (\<lambda>r. (r ''id'', r ''created_on'')) other_batch
   \<and> preprocess char_encode [''please''] sample_batch sample_index
     = preprocess char_encode [''please''] other_batch sample_index"
proof -
  have h: "map (\<lambda>r. (r ''title'', r ''description'', r ''tag'')) sample_batch
         = map (\<lambda>r. (r ''title'', r ''description'', r ''tag'')) other_batch"
    by (simp add: sample_batch_def other_batch_def csv_row_def)
  have d: "map (\<lambda>r. (r ''id'', r ''created_on'')) sample_batch
         \<noteq> map (\<lambda>r. (r ''id'', r ''created_on'')) other_batch"
    by (simp add: sample_batch_def other_batch_def csv_row_def)
  show ?thesis
    using h d preprocess_ignores_id_and_timestamp [OF h, of char_encode "[''please'']" sample_index]
    by blast
qed

section \<open>Properties of the preprocessor\<close>

lemma update_fresh: "k \<notin> fst ` set al \<Longrightarrow> AList.update k v al = al @ [(k, v)]"
  by (induction al) auto

lemma index_fold:
  "distinct ts \<Longrightarrow> set ts \<inter> fst ` set d = {} \<Longrightarrow>
   foldl (\<lambda>d (i, tag). AList.update tag i d) d (enumerate k ts) = d @ zip ts [k ..< k + length ts]"
proof (induction ts arbitrary: d k)
  case Nil
  then show ?case by simp
next
  case (Cons t ts)
  have fresh: "t \<notin> fst ` set d" using Cons.prems by auto
  have disj: "set ts \<inter> fst ` set (d @ [(t, k)]) = {}" using Cons.prems by auto
  have dist: "distinct ts" using Cons.prems by simp
  have "foldl (\<lambda>d (i, tag). AList.update tag i d) d (enumerate k (t # ts))
      = foldl (\<lambda>d (i, tag). AList.update tag i d) (d @ [(t, k)]) (enumerate (Suc k) ts)"
    using fresh by (simp add: update_fresh)
  also have "\<dots> = (d @ [(t, k)]) @ zip ts [Suc k ..< Suc k + length ts]"
    using Cons.IH [OF dist disj] .
  also have "\<dots> = d @ zip (t # ts) [k ..< k + length (t # ts)]"
    using upt_conv_Cons [of k "Suc (k + length ts)"] by (simp del: upt_Suc)
  finally show ?case .
qed

lemma index_tags_zip: "distinct ts \<Longrightarrow> index_tags ts = zip ts [0 ..< length ts]"
  using index_fold [of ts "[]" 0] by (simp add: index_tags_def)

lemma invert_fold:
  "distinct (map snd d) \<Longrightarrow> snd ` set d \<inter> fst ` set e = {} \<Longrightarrow>
   foldl (\<lambda>e (k, v). AList.update v k e) e d = e @ map (\<lambda>(k, v). (v, k)) d"
proof (induction d arbitrary: e)
  case Nil
  then show ?case by simp
next
  case (Cons kv d)
  obtain k v where kv: "kv = (k, v)" by (cases kv)
  have fresh: "v \<notin> fst ` set e" using Cons.prems kv by auto
  have disj: "snd ` set d \<inter> fst ` set (e @ [(v, k)]) = {}" using Cons.prems kv by auto
  have dist: "distinct (map snd d)" using Cons.prems by simp
  show ?case
    using Cons.IH [OF dist disj] fresh kv by (simp add: update_fresh)
qed

lemma invert_zip:
  "distinct vs \<Longrightarrow> length ks = length vs \<Longrightarrow> invert (zip ks vs) = zip vs ks"
proof -
  assume d: "distinct vs" and l: "length ks = length vs"
  have "invert (zip ks vs) = map (\<lambda>(k, v). (v, k)) (zip ks vs)"
    using invert_fold [of "zip ks vs" "[]"] d l by (simp add: invert_def)
  also have "\<dots> = zip vs ks"
    using l by (induction ks vs rule: list_induct2) auto
  finally show ?thesis .
qed

text \<open>
  C7. Let the engine's \<open>unique\<close> give each value of the tag column once. After \<open>fit\<close> on a
  dataset whose tag column has \<open>n\<close> distinct values, \<open>class_to_index\<close> maps those labels
  one-to-one onto \<open>0, \<dots>, n - 1\<close>, its keys are those labels, the keys of \<open>index_to_class\<close>
  are \<open>0, \<dots>, n - 1\<close>, and each of the two dictionaries undoes the other.
\<close>

theorem fit_bijection:
  assumes uniq: "distinct (unique (map (\<lambda>r. r ''tag'') ds))"
      and same: "set (unique (map (\<lambda>r. r ''tag'') ds)) = set (map (\<lambda>r. r ''tag'') ds)"
  defines "p \<equiv> fit unique ds"
  defines "labels \<equiv> set (map (\<lambda>r. r ''tag'') ds)"
  shows "bij_betw (\<lambda>c. the (map_of (class_to_index p) c)) labels {0 ..< card labels}
       \<and> dom (map_of (class_to_index p)) = labels
       \<and> dom (map_of (index_to_class p)) = {0 ..< card labels}
       \<and> (\<forall>c \<in> labels. \<exists>i < card labels. map_of (class_to_index p) c = Some i
                                          \<and> map_of (index_to_class p) i = Some c)
       \<and> (\<forall>i < card labels. \<exists>c \<in> labels. map_of (index_to_class p) i = Some c
                                          \<and> map_of (class_to_index p) c = Some i)"
proof -
  define ts where "ts = unique (map (\<lambda>r. r ''tag'') ds)"
  define n where "n = length ts"
  have dist: "distinct ts" using uniq by (simp add: ts_def)
  have labels: "labels = set ts" using same by (simp add: labels_def ts_def)
  have card: "card labels = n" using dist labels by (simp add: distinct_card n_def)
  have c2i: "class_to_index p = zip ts [0 ..< n]"
    using dist by (simp add: p_def fit_def Let_def ts_def [symmetric] index_tags_zip n_def)
  have i2c: "index_to_class p = zip [0 ..< n] ts"
    using dist by (simp add: p_def fit_def Let_def ts_def [symmetric] index_tags_zip invert_zip n_def)
  have fwd: "map_of (class_to_index p) (ts ! i) = Some i" if "i < n" for i
    using that dist by (simp add: c2i n_def map_of_zip_nth)
  have bwd: "map_of (index_to_class p) i = Some (ts ! i)" if "i < n" for i
    using that map_of_zip_nth [of "[0 ..< n]" ts i] by (simp add: i2c n_def)
  have dom1: "dom (map_of (class_to_index p)) = labels"
    by (simp add: c2i labels n_def)
  have dom2: "dom (map_of (index_to_class p)) = {0 ..< n}"
    by (simp add: i2c n_def)
  have a: "\<forall>c \<in> labels. \<exists>i < n. map_of (class_to_index p) c = Some i
                                          \<and> map_of (index_to_class p) i = Some c"
  proof
    fix c assume "c \<in> labels"
    then obtain i where i: "i < n" "c = ts ! i"
      unfolding labels n_def by (auto simp: in_set_conv_nth)
    then show "\<exists>i < n. map_of (class_to_index p) c = Some i \<and> map_of (index_to_class p) i = Some c"
      using fwd bwd by auto
  qed
  have b: "\<forall>i < n. \<exists>c \<in> labels. map_of (index_to_class p) i = Some c
                                          \<and> map_of (class_to_index p) c = Some i"
  proof (intro allI impI)
    fix i assume i: "i < n"
    then have "ts ! i \<in> labels" by (simp add: labels n_def)
    then show "\<exists>c \<in> labels. map_of (index_to_class p) i = Some c \<and> map_of (class_to_index p) c = Some i"
      using fwd [OF i] bwd [OF i] by blast
  qed
  have bij: "bij_betw (\<lambda>c. the (map_of (class_to_index p) c)) labels {0 ..< n}"
  proof (rule bij_betw_byWitness [where f' = "\<lambda>i. ts ! i"])
    show "\<forall>c \<in> labels. ts ! the (map_of (class_to_index p) c) = c"
      using a bwd by fastforce
    show "\<forall>i \<in> {0 ..< n}. the (map_of (class_to_index p) (ts ! i)) = i"
      using fwd by simp
    show "(\<lambda>c. the (map_of (class_to_index p) c)) ` labels \<subseteq> {0 ..< n}"
      using a by fastforce
    show "(!) ts ` {0 ..< n} \<subseteq> labels"
      by (auto simp: labels n_def)
  qed
  show ?thesis using bij dom1 dom2 a b by (simp add: card)
qed

theorem fit_bijection_witness:
  "class_to_index (fit remdups sample_batch) = [(Some (Str ''nlp''), 0), (Some (Str ''cv''), 1)]
   \<and> index_to_class (fit remdups sample_batch) = [(0, Some (Str ''nlp'')), (1, Some (Str ''cv''))]
   \<and> bij_betw (\<lambda>c. the (map_of (class_to_index (fit remdups sample_batch)) c))
         (set (map (\<lambda>r. r ''tag'') sample_batch))
         {0 ..< card (set (map (\<lambda>r. r ''tag'') sample_batch))}"
proof -
  have a: "distinct (remdups (map (\<lambda>r. r ''tag'') sample_batch))" by simp
  have b: "set (remdups (map (\<lambda>r. r ''tag'') sample_batch)) = set (map (\<lambda>r. r ''tag'') sample_batch)"
    by simp
  have c: "class_to_index (fit remdups sample_batch) = [(Some (Str ''nlp''), 0), (Some (Str ''cv''), 1)]"
    by (simp add: fit_def index_tags_def sample_batch_def csv_row_def enumerate_eq_zip Let_def)
  have d: "index_to_class (fit remdups sample_batch) = [(0, Some (Str ''nlp'')), (1, Some (Str ''cv''))]"
    by (simp add: fit_def index_tags_def invert_def sample_batch_def csv_row_def enumerate_eq_zip Let_def)
  show ?thesis
    using a b c d fit_bijection [of remdups sample_batch] by blast
qed

section \<open>Properties of the stratified split\<close>

lemma filter_split_append: "filter_split (a @ b) s = filter_split a s @ filter_split b s"
  by (simp add: filter_split_def)

lemma filter_split_concat:
  "concat (map (\<lambda>df. filter_split df s) bs) = filter_split (concat bs) s"
  by (induction bs) (simp_all add: filter_split_def)

lemma map_batches_filter_split:
  "concat (batching xs) = xs \<Longrightarrow> map_batches batching (\<lambda>df. filter_split df s) xs = filter_split xs s"
  by (simp add: map_batches_def filter_split_concat)

lemma drop_split_set_split: "drop_split (set_split l r) = drop_split r"
  by (simp add: drop_split_def set_split_def)

lemma filter_split_labelled:
  "filter_split (map (set_split l) xs) s = (if l = s then map drop_split xs else [])"
  by (induction xs) (auto simp: filter_split_def set_split_def drop_split_def)

lemma add_split_parts:
  assumes "add_split tts ts sh seed g = Inr d"
  shows "\<exists>tr te. tts ts sh seed g = Inr (tr, te)
           \<and> filter_split d ''train'' = map drop_split tr
           \<and> filter_split d ''test'' = map drop_split te"
proof -
  from assms obtain tr te where t: "tts ts sh seed g = Inr (tr, te)"
    and d: "d = map (set_split ''train'') tr @ map (set_split ''test'') te"
    by (auto simp: add_split_def split: sum.splits)
  show ?thesis
    using t by (simp add: d filter_split_append filter_split_labelled)
qed

lemma map_groups_Cons:
  assumes "map_groups f (g # gs) = Inr out"
  shows "\<exists>d out'. f g = Inr d \<and> map_groups f gs = Inr out' \<and> out = d @ out'"
  using assms by (auto split: sum.splits)

lemma grouped_partition:
  assumes "splits_rows tts ts sh seed"
      and "map_groups (add_split tts ts sh seed) gs = Inr out"
  shows "mset (filter_split out ''train'') + mset (filter_split out ''test'')
       = mset (map drop_split (concat gs))"
  using assms(2)
proof (induction gs arbitrary: out)
  case Nil
  then show ?case by (simp add: filter_split_def)
next
  case (Cons g gs)
  from map_groups_Cons [OF Cons.prems] obtain d out'
    where d: "add_split tts ts sh seed g = Inr d"
      and o: "map_groups (add_split tts ts sh seed) gs = Inr out'"
      and out: "out = d @ out'" by blast
  from add_split_parts [OF d] obtain tr te where t: "tts ts sh seed g = Inr (tr, te)"
    and tr: "filter_split d ''train'' = map drop_split tr"
    and te: "filter_split d ''test'' = map drop_split te" by blast
  have "mset tr + mset te = mset g" using assms(1) t by (auto simp: splits_rows_def)
  then have e: "mset (map drop_split tr) + mset (map drop_split te) = mset (map drop_split g)"
    by (metis image_mset_union mset_map)
  have "mset (filter_split out ''train'') + mset (filter_split out ''test'')
      = (mset (map drop_split tr) + mset (map drop_split te))
        + (mset (filter_split out' ''train'') + mset (filter_split out' ''test''))"
    by (simp add: out filter_split_append tr te)
  also have "\<dots> = mset (map drop_split g) + mset (map drop_split (concat gs))"
    by (simp only: e Cons.IH [OF o])
  also have "\<dots> = mset (map drop_split (concat (g # gs)))"
    by simp
  finally show ?case .
qed

lemma groups_partition_aux:
  "distinct ks \<Longrightarrow>
   mset (concat (map (\<lambda>k. filter (\<lambda>r. f r = k) ds) ks)) = filter_mset (\<lambda>r. f r \<in> set ks) (mset ds)"
proof (induction ks)
  case Nil
  then show ?case by simp
next
  case (Cons k ks)
  have "filter_mset (\<lambda>r. f r \<in> set (k # ks)) (mset ds)
      = filter_mset (\<lambda>r. f r = k) (mset ds) + filter_mset (\<lambda>r. f r \<in> set ks) (mset ds)"
    using Cons.prems by (induction ds) auto
  with Cons show ?case by simp
qed

lemma groupby_partition:
  assumes "groupby col ds = Inr gs"
  shows "mset (concat gs) = mset ds"
proof -
  from assms have gs: "gs = map (\<lambda>k. filter (\<lambda>r. r col = k) ds) (remdups (map (\<lambda>r. r col) ds))"
    by (auto simp: groupby_def split: if_splits)
  have "mset (concat gs) = filter_mset (\<lambda>r. r col \<in> set (remdups (map (\<lambda>r. r col) ds))) (mset ds)"
    unfolding gs by (rule groups_partition_aux) simp
  also have "\<dots> = mset ds"
    by (simp add: filter_mset_eq_conv)
  finally show ?thesis .
qed

lemma mset_concat_map:
  "\<forall>g. mset (order g) = mset g \<Longrightarrow> mset (concat (map order gs)) = mset (concat gs)"
  by (induction gs) simp_all

lemma grouped_Inr:
  assumes "grouped tts order ds stratify test_size shuffle seed = Inr out"
  shows "\<exists>gs. groupby stratify ds = Inr gs
            \<and> map_groups (add_split tts test_size shuffle seed) (map order gs) = Inr out"
  using assms by (auto simp: grouped_def split: sum.splits)


lemma length_filter_mset: "length (filter P xs) = size (filter_mset P (mset xs))"
  by (metis mset_filter size_mset)

lemma drop_split_other: "col \<noteq> ''_split'' \<Longrightarrow> drop_split r col = r col"
  by (simp add: drop_split_def)

lemma filter_class_drop_split:
  "col \<noteq> ''_split'' \<Longrightarrow>
   length (filter (\<lambda>r. r col = c) (map drop_split xs)) = length (filter (\<lambda>r. r col = c) xs)"
  by (induction xs) (auto simp: drop_split_other)

text \<open>Groups without rows of the class contribute no row of the class.\<close>

lemma grouped_no_class:
  assumes sr: "splits_rows tts ts sh seed"
      and col: "col \<noteq> ''_split''"
      and gr: "map_groups (add_split tts ts sh seed) gs = Inr out"
      and none: "\<forall>r \<in> set (concat gs). r col \<noteq> c"
  shows "filter (\<lambda>r. r col = c) (filter_split out ''train'') = []"
proof -
  have "set_mset (mset (filter_split out ''train'')) \<subseteq> set_mset (mset (map drop_split (concat gs)))"
    using grouped_partition [OF sr gr] by (metis mset_subset_eq_add_left set_mset_mono)
  then have sub: "set (filter_split out ''train'') \<subseteq> drop_split ` set (concat gs)"
    by simp
  have "\<forall>r \<in> set (filter_split out ''train''). r col \<noteq> c"
  proof
    fix r assume "r \<in> set (filter_split out ''train'')"
    with sub obtain r0 where r0: "r0 \<in> set (concat gs)" "r = drop_split r0" by blast
    from r0(1) none have "r0 col \<noteq> c" by blast
    with r0(2) col show "r col \<noteq> c" by (simp add: drop_split_other)
  qed
  then show ?thesis by (simp add: filter_empty_conv)
qed

lemma set_order: "\<forall>g. mset (order g) = mset g \<Longrightarrow> set (order g) = set g"
  by (metis set_mset_mset)

lemma order_group_key:
  assumes "\<forall>g. mset (order g) = mset g" and "r \<in> set (order (filter (\<lambda>r. r col = k) ds))"
  shows "r col = k"
proof -
  have "set (order (filter (\<lambda>r. r col = k) ds)) = set (filter (\<lambda>r. r col = k) ds)"
    using assms(1) by (rule set_order)
  with assms(2) show ?thesis by simp
qed

lemma grouped_class_count:
  assumes sr: "splits_rows tts ts sh seed"
      and sz: "split_sizes tts ts sh seed"
      and col: "col \<noteq> ''_split''"
      and perm: "\<forall>g. mset (order g) = mset g"
  shows "distinct ks \<Longrightarrow>
         map_groups (add_split tts ts sh seed) (map (\<lambda>k. order (filter (\<lambda>r. r col = k) ds)) ks) = Inr out \<Longrightarrow>
         \<bar>real (length (filter (\<lambda>r. r col = c) (filter_split out ''train'')))
            - (1 - ts) * real (length (filter (\<lambda>r. r col = c)
                 (concat (map (\<lambda>k. order (filter (\<lambda>r. r col = k) ds)) ks))))\<bar> < 1"
proof (induction ks arbitrary: out)
  case Nil
  then show ?case by (simp add: filter_split_def)
next
  case (Cons k ks)
  let ?G = "\<lambda>k. order (filter (\<lambda>r. r col = k) ds)"
  let ?C = "\<lambda>r. r col = c"
  have key: "r col = k'" if "r \<in> set (?G k')" for r k'
    using perm that by (rule order_group_key)
  have others: "r col \<noteq> k" if "r \<in> set (concat (map ?G ks))" for r
  proof -
    from that obtain k' where k': "k' \<in> set ks" and r: "r \<in> set (?G k')" by auto
    from r have "r col = k'" by (rule key)
    with k' Cons.prems(1) show ?thesis by auto
  qed
  from map_groups_Cons [of "add_split tts ts sh seed" "?G k" "map ?G ks" out] Cons.prems(2)
  obtain d out' where d: "add_split tts ts sh seed (?G k) = Inr d"
    and o: "map_groups (add_split tts ts sh seed) (map ?G ks) = Inr out'"
    and out: "out = d @ out'" by auto
  from add_split_parts [OF d] obtain tr te where t: "tts ts sh seed (?G k) = Inr (tr, te)"
    and tr: "filter_split d ''train'' = map drop_split tr" by blast
  have part: "mset tr + mset te = mset (?G k)" using sr t by (auto simp: splits_rows_def)
  have dist: "distinct ks" and fresh: "k \<notin> set ks" using Cons.prems(1) by auto
  have cnt: "length (filter ?C (filter_split out ''train''))
           = length (filter ?C tr) + length (filter ?C (filter_split out' ''train''))"
    using filter_class_drop_split [OF col, of c tr]
    by (simp only: out filter_split_append tr filter_append length_append)
  have sub: "set tr \<subseteq> set (?G k)"
    using part by (metis mset_subset_eq_add_left set_mset_mono set_mset_mset)
  have cc: "concat (map ?G (k # ks)) = ?G k @ concat (map ?G ks)" by simp
  show ?case
  proof (cases "k = c")
    case True
    have nc: "\<forall>r \<in> set (concat (map ?G ks)). r col \<noteq> c"
      using others True by blast
    have rest: "filter ?C (filter_split out' ''train'') = []"
      using sr col o nc by (rule grouped_no_class)
    have rest': "filter ?C (concat (map ?G ks)) = []"
      by (subst filter_empty_conv) (use nc in blast)
    have "\<forall>r \<in> set (?G k). r col = c" using True key by blast
    then have allg: "filter ?C (?G k) = ?G k" by (simp add: filter_id_conv)
    have "\<forall>r \<in> set tr. r col = c" using sub \<open>\<forall>r \<in> set (?G k). r col = c\<close> by blast
    then have alltr: "filter ?C tr = tr" by (simp add: filter_id_conv)
    have len: "length tr + length te = length (?G k)"
      using part by (metis size_mset size_union)
    have "\<bar>real (length te) - ts * real (length (?G k))\<bar> < 1"
      using sz t by (auto simp: split_sizes_def)
    moreover have "real (length tr) - (1 - ts) * real (length (?G k))
                 = ts * real (length (?G k)) - real (length te)"
      using len by (simp add: algebra_simps flip: of_nat_add)
    ultimately have "\<bar>real (length tr) - (1 - ts) * real (length (?G k))\<bar> < 1"
      by linarith
    then show ?thesis
      by (simp only: cnt cc alltr rest rest' allg filter_append list.size append_Nil2 add_0_right)
  next
    case False
    have "\<forall>r \<in> set (?G k). r col \<noteq> c" using False key by blast
    then have nog: "filter ?C (?G k) = []" by (simp add: filter_empty_conv)
    have "\<forall>r \<in> set tr. r col \<noteq> c" using sub \<open>\<forall>r \<in> set (?G k). r col \<noteq> c\<close> by blast
    then have notr: "filter ?C tr = []" by (simp add: filter_empty_conv)
    have "\<bar>real (length (filter ?C (filter_split out' ''train'')))
            - (1 - ts) * real (length (filter ?C (concat (map ?G ks))))\<bar> < 1"
      using Cons.IH [OF dist o] .
    then show ?thesis
      by (simp only: cnt cc notr nog filter_append list.size append_Nil add_0)
  qed
qed

text \<open>
  C5. Let \<open>train_test_split\<close> divide the rows of a frame between its two results with a
  test part that is the test fraction of the frame rounded to a neighbouring integer, and
  let the run of the grouped dataset that gives the train output hold the rows of each
  group, in any order. Whenever \<open>stratify_split\<close> returns, for each value \<open>c\<close> of the
  stratify column the number of train records with that value differs from
  \<open>1 - test_size\<close> times the number of input records with that value by less than one
  record.
\<close>

theorem stratify_split_class_ratio:
  assumes tts: "\<forall>df tr te. tts test_size shuffle seed df = Inr (tr, te) \<longrightarrow>
                  mset tr + mset te = mset df
                \<and> \<bar>real (length te) - test_size * real (length df)\<bar> < 1"
      and sh: "\<forall>xs. mset (random_shuffle seed xs) = mset xs"
      and bt: "\<forall>xs. concat (batching xs) = xs"
      and perm: "\<forall>g. mset (arrange TrainRun g) = mset g"
      and col: "stratify \<noteq> ''_split''"
      and res: "stratify_split tts random_shuffle batching arrange ds stratify test_size shuffle seed
                  = Inr (train, test)"
  shows "\<bar>real (length (filter (\<lambda>r. r stratify = c) train))
           - (1 - test_size) * real (length (filter (\<lambda>r. r stratify = c) ds))\<bar> < 1"
proof -
  from res obtain g1 where g1: "grouped tts (arrange TrainRun) ds stratify test_size shuffle seed = Inr g1"
    and train: "train = random_shuffle seed (map_batches batching (\<lambda>df. filter_split df ''train'') g1)"
    by (auto simp: stratify_split_def Let_def split: sum.splits)
  from grouped_Inr [OF g1] obtain gs where gs: "groupby stratify ds = Inr gs"
    and gr: "map_groups (add_split tts test_size shuffle seed) (map (arrange TrainRun) gs) = Inr g1"
    by blast
  have gs': "gs = map (\<lambda>k. filter (\<lambda>r. r stratify = k) ds) (remdups (map (\<lambda>r. r stratify) ds))"
    using gs by (auto simp: groupby_def split: if_splits)
  have mgs: "map (arrange TrainRun) gs
           = map (\<lambda>k. arrange TrainRun (filter (\<lambda>r. r stratify = k) ds))
                 (remdups (map (\<lambda>r. r stratify) ds))"
    by (simp add: gs' comp_def)
  have mtrain: "mset train = mset (filter_split g1 ''train'')"
    using sh bt by (simp add: train map_batches_filter_split)
  have sr: "splits_rows tts test_size shuffle seed"
    using tts by (simp add: splits_rows_def)
  have sz: "split_sizes tts test_size shuffle seed"
    using tts by (simp add: split_sizes_def)
  have a: "length (filter (\<lambda>r. r stratify = c) train)
         = length (filter (\<lambda>r. r stratify = c) (filter_split g1 ''train''))"
    by (simp add: length_filter_mset mtrain)
  have b: "length (filter (\<lambda>r. r stratify = c) (concat (map (arrange TrainRun) gs)))
         = length (filter (\<lambda>r. r stratify = c) ds)"
    by (simp add: length_filter_mset groupby_partition [OF gs] mset_concat_map [OF perm])
  have "\<bar>real (length (filter (\<lambda>r. r stratify = c) (filter_split g1 ''train'')))
          - (1 - test_size) * real (length (filter (\<lambda>r. r stratify = c)
               (concat (map (arrange TrainRun) gs))))\<bar> < 1"
    unfolding mgs
    by (rule grouped_class_count [OF sr sz col perm]) (use gr mgs in simp_all)
  then show ?thesis by (simp only: a b)
qed

lemma halving_split_rows:
  "halving_split ts sh seed df = Inr (tr, te) \<Longrightarrow> mset tr + mset te = mset df"
proof -
  assume "halving_split ts sh seed df = Inr (tr, te)"
  then have "tr = take (length df div 2) df" "te = drop (length df div 2) df"
    by (auto simp: halving_split_def split: if_splits)
  then have "tr @ te = df" by simp
  then show ?thesis by (metis mset_append)
qed

lemma halving_split_size:
  assumes "halving_split (1 / 2) sh seed df = Inr (tr, te)"
  shows "\<bar>real (length te) - (1 / 2) * real (length df)\<bar> < 1"
proof -
  from assms have te: "length te = length df - length df div 2"
    by (auto simp: halving_split_def split: if_splits)
  have "2 * length te = length df \<or> 2 * length te = length df + 1"
    unfolding te by presburger
  then have "real (2 * length te) = real (length df) \<or> real (2 * length te) = real (length df + 1)"
    by presburger
  then show ?thesis by auto
qed

lemma sample_split_returns:
  "\<exists>train test. stratify_split halving_split reverse_shuffle single_batch same_order sample_dataset
       ''tag'' (1 / 2) True 1234 = Inr (train, test)"
  by (simp add: stratify_split_def grouped_def groupby_def sample_dataset_def csv_row_def
                add_split_def halving_split_def same_order_def Let_def)









theorem stratify_split_class_ratio_witness:
  "\<exists>train test. stratify_split halving_split reverse_shuffle single_batch same_order sample_dataset
       ''tag'' (1 / 2) True 1234 = Inr (train, test)
     \<and> \<bar>real (length (filter (\<lambda>r. r ''tag'' = Some (Str ''nlp'')) train))
         - (1 - 1 / 2) * real (length (filter (\<lambda>r. r ''tag'' = Some (Str ''nlp'')) sample_dataset))\<bar> < 1"
proof -
  from sample_split_returns obtain train test
    where r: "stratify_split halving_split reverse_shuffle single_batch same_order sample_dataset
                ''tag'' (1 / 2) True 1234 = Inr (train, test)" by blast
  have a: "\<forall>df tr te. halving_split (1 / 2) True 1234 df = Inr (tr, te) \<longrightarrow>
             mset tr + mset te = mset df \<and> \<bar>real (length te) - (1 / 2) * real (length df)\<bar> < 1"
    using halving_split_rows halving_split_size by blast
  have b: "\<forall>xs :: row list. mset (reverse_shuffle 1234 xs) = mset xs"
    by (simp add: reverse_shuffle_def)
  have c: "\<forall>xs :: row list. concat (single_batch xs) = xs"
    by (simp add: single_batch_def)
  have p: "\<forall>g. mset (same_order TrainRun g) = mset g"
    by (simp add: same_order_def)
  have d: "''tag'' \<noteq> ''_split''" by simp
  from stratify_split_class_ratio [OF a b c p d r, of "Some (Str ''nlp'')"] r
  show ?thesis by blast
qed

section \<open>Properties of text cleaning\<close>

declare sub_scan.simps [simp del]

lemma is_space_not_word: "is_space c \<Longrightarrow> \<not> is_word c"
  by (auto simp: is_space_def is_word_def is_alnum_def is_upper_def is_lower_def is_digit_def Let_def)

lemma fst_runs_from: "fst (runs_from P s) = takeWhile P s"
  by (induction s) (auto split: prod.splits)

lemma runs_eq: "runs P s = pack (takeWhile P s) (snd (runs_from P s))"
  by (simp add: runs_def fst_runs_from [symmetric] split: prod.splits)

lemma runs_from_Cons:
  "runs_from P (c # cs) =
     (if P c then (c # takeWhile P cs, snd (runs_from P cs)) else ([], runs P cs))"
  by (simp add: runs_def fst_runs_from [symmetric] split: prod.splits)

declare runs_from.simps(2) [simp del]

lemma runs_Cons_other: "\<not> P c \<Longrightarrow> runs P (c # cs) = runs P cs"
  by (simp add: runs_eq runs_from_Cons pack_def)

lemma snd_runs_from_other: "\<not> P c \<Longrightarrow> snd (runs_from P (c # cs)) = runs P cs"
  by (simp add: runs_from_Cons)

lemma snd_runs_from_same: "P c \<Longrightarrow> snd (runs_from P (c # cs)) = snd (runs_from P cs)"
  by (simp add: runs_from_Cons)

lemma runs_Cons_same: "P c \<Longrightarrow> runs P (c # cs) = (c # takeWhile P cs) # snd (runs_from P cs)"
  by (simp add: runs_eq runs_from_Cons pack_def)

lemma snd_subset_runs: "set (snd (runs_from P s)) \<subseteq> set (runs P s)"
  by (auto simp: runs_eq pack_def)

lemma runs_Nil [simp]: "runs P [] = []"
  by (simp add: runs_def pack_def)

text \<open>Dropping up to a position that is not inside a run keeps only later runs.\<close>

lemma runs_drop:
  "0 < n \<Longrightarrow> n \<le> length s \<Longrightarrow>
   \<not> (P (last (take n s)) \<and> drop n s \<noteq> [] \<and> P (hd (drop n s))) \<Longrightarrow>
   set (runs P (drop n s)) \<subseteq> set (snd (runs_from P s))"
proof (induction s arbitrary: n)
  case Nil
  then show ?case by simp
next
  case (Cons c cs)
  then obtain m where n: "n = Suc m" by (cases n) auto
  show ?case
  proof (cases m)
    case 0
    show ?thesis
    proof (cases "P c")
      case True
      with Cons.prems n 0 have "cs = [] \<or> \<not> P (hd cs)" by auto
      then have "takeWhile P cs = []" by (cases cs) auto
      then have "runs P cs = snd (runs_from P cs)" by (simp add: runs_eq pack_def)
      with True n 0 show ?thesis by (simp add: snd_runs_from_same)
    next
      case False
      with n 0 show ?thesis by (simp add: snd_runs_from_other)
    qed
  next
    case (Suc k)
    have ne: "cs \<noteq> []" using Cons.prems n Suc by auto
    have "set (runs P (drop m cs)) \<subseteq> set (snd (runs_from P cs))"
    proof (rule Cons.IH)
      show "0 < m" using Suc by simp
      show "m \<le> length cs" using Cons.prems n by simp
      show "\<not> (P (last (take m cs)) \<and> drop m cs \<noteq> [] \<and> P (hd (drop m cs)))"
        using Cons.prems(3) n Suc ne by simp
    qed
    also have "\<dots> \<subseteq> set (snd (runs_from P (c # cs)))"
      using snd_subset_runs [of P cs] by (cases "P c") (auto simp: snd_runs_from_same snd_runs_from_other)
    finally show ?thesis using n by simp
  qed
qed

lemma first_match_Some:
  "first_match alts p rest adv = Some n \<Longrightarrow> \<exists>w \<in> set alts. match_alt p rest w = Some n"
  by (induction alts) (auto split: option.splits if_splits)

lemma first_match_finds:
  "w \<in> set alts \<Longrightarrow> match_alt p rest w = Some n \<Longrightarrow> 0 < n \<Longrightarrow>
   first_match alts p rest adv \<noteq> None"
  by (induction alts) (auto split: option.splits)

text \<open>A match ends where no word goes on.\<close>

lemma match_alt_end:
  assumes "match_alt p rest w = Some n"
  shows "\<not> (prev_is_word (prev_after p (take n rest)) \<and> next_is_word (drop n rest))"
proof -
  define r where "r = drop (length w) rest"
  define k where "k = length (takeWhile is_space r)"
  from assms have pw: "prefix w rest" and b: "word_boundary (prev_after p w) r"
    and n: "n = length w + k"
    by (auto simp: match_alt_def r_def k_def split: if_splits)
  from pw have rest: "rest = w @ r" by (auto simp: prefix_def r_def)
  show ?thesis
  proof (cases "k = 0")
    case True
    with n rest have "take n rest = w" "drop n rest = r" by auto
    with b show ?thesis by (auto simp: word_boundary_def)
  next
    case False
    have tk: "take n rest = w @ takeWhile is_space r"
      unfolding n rest k_def by (simp add: takeWhile_eq_take [symmetric])
    have ne: "takeWhile is_space r \<noteq> []" using False by (simp add: k_def)
    then have "last (takeWhile is_space r) \<in> set (takeWhile is_space r)" by simp
    then have "is_space (last (takeWhile is_space r))" by (meson set_takeWhileD)
    then have "\<not> is_word (last (take n rest))"
      using ne by (simp add: tk is_space_not_word)
    moreover have "take n rest \<noteq> []" using ne tk by simp
    ultimately show ?thesis by (simp add: prev_after_def prev_is_word_def)
  qed
qed

lemma match_here_end:
  assumes "match_here alts p rest adv = Some n"
  shows "\<not> (prev_is_word (prev_after p (take n rest)) \<and> next_is_word (drop n rest))"
proof -
  from assms have "first_match alts p rest adv = Some n"
    by (auto simp: match_here_def split: if_splits)
  then obtain w where "match_alt p rest w = Some n" by (auto dest: first_match_Some)
  then show ?thesis by (rule match_alt_end)
qed

lemma match_here_boundary: "match_here alts p rest adv = Some n \<Longrightarrow> word_boundary p rest"
  by (auto simp: match_here_def split: if_splits)

text \<open>Where a word starts and nothing matches, the word is no alternative.\<close>

lemma no_match_word:
  assumes np: "\<not> prev_is_word p" and c: "is_word c"
      and nm: "match_here alts p (c # cs) adv = None"
  shows "c # takeWhile is_word cs \<notin> set alts"
proof
  let ?w = "c # takeWhile is_word cs"
  assume w: "?w \<in> set alts"
  have b: "word_boundary p (c # cs)" using np c by (simp add: word_boundary_def next_is_word_def)
  have d: "drop (length ?w) (c # cs) = dropWhile is_word cs"
    by (simp add: dropWhile_eq_drop [symmetric])
  have "\<not> next_is_word (dropWhile is_word cs)"
  proof (cases "dropWhile is_word cs")
    case Nil
    show ?thesis unfolding Nil next_is_word_def by simp
  next
    case (Cons a l)
    with hd_dropWhile [of is_word cs] have "\<not> is_word a" by simp
    then show ?thesis unfolding Cons next_is_word_def by simp
  qed
  moreover have "prev_is_word (prev_after p ?w)"
  proof -
    have "\<forall>x \<in> set ?w. is_word x" using c by (auto dest: set_takeWhileD)
    moreover have "last ?w \<in> set ?w" by (rule last_in_set) simp
    ultimately have "is_word (last ?w)" by blast
    then show ?thesis by (simp add: prev_after_def prev_is_word_def)
  qed
  ultimately have "word_boundary (prev_after p ?w) (drop (length ?w) (c # cs))"
    by (simp only: d word_boundary_def) simp
  moreover have "prefix ?w (c # cs)" by (simp add: takeWhile_is_prefix)
  ultimately obtain n where "match_alt p (c # cs) ?w = Some n" "0 < n"
    by (simp add: match_alt_def)
  with w have "first_match alts p (c # cs) adv \<noteq> None" by (rule first_match_finds)
  with b nm show False by (simp add: match_here_def)
qed

lemma not_next_takeWhile: "\<not> next_is_word s \<Longrightarrow> takeWhile is_word s = []"
  by (cases s) (auto simp: next_is_word_def)

lemma runs_no_lead: "takeWhile P s = [] \<Longrightarrow> runs P s = snd (runs_from P s)"
  by (simp add: runs_eq pack_def)

lemma space_not_word: "\<not> is_word CHR '' ''"
  by (simp add: is_word_def is_alnum_def is_upper_def is_lower_def is_digit_def)

lemma sub_scan_None:
  "match_here alts p rest adv = None \<Longrightarrow>
   sub_scan alts p rest adv = (case rest of [] \<Rightarrow> [] | c # cs \<Rightarrow> c # sub_scan alts (Some c) cs False)"
  by (subst sub_scan.simps) simp

lemma sub_scan_Some:
  "match_here alts p rest adv = Some n \<Longrightarrow>
   sub_scan alts p rest adv
     = CHR '' '' # sub_scan alts (prev_after p (take n rest)) (drop n rest) (n = 0)"
  by (subst sub_scan.simps) simp

lemma scan_runs:
  "set (word_runs_after p (sub_scan alts p rest adv)) \<subseteq> set (word_runs_after p rest) - set alts
   \<and> (prev_is_word p \<longrightarrow> takeWhile is_word (sub_scan alts p rest adv) = takeWhile is_word rest)"
proof (induction alts p rest adv rule: sub_scan.induct)
  case (1 alts p rest adv)
  show ?case
  proof (cases "match_here alts p rest adv")
    case None
    show ?thesis
    proof (cases rest)
      case Nil
      with None show ?thesis by (simp add: sub_scan_None word_runs_after_def)
    next
      case (Cons c cs)
      define out' where "out' = sub_scan alts (Some c) cs False"
      have out: "sub_scan alts p (c # cs) adv = c # out'"
        using None Cons by (simp add: sub_scan_None out'_def)
      have IH: "set (word_runs_after (Some c) out') \<subseteq> set (word_runs_after (Some c) cs) - set alts
              \<and> (is_word c \<longrightarrow> takeWhile is_word out' = takeWhile is_word cs)"
        using "1.IH"(1) [OF None Cons] by (simp add: out'_def prev_is_word_def)
      show ?thesis
      proof (cases "is_word c")
        case True
        from IH True have s: "set (snd (runs_from is_word out')) \<subseteq> set (snd (runs_from is_word cs)) - set alts"
          and t: "takeWhile is_word out' = takeWhile is_word cs"
          by (simp_all add: word_runs_after_def prev_is_word_def)
        show ?thesis
        proof (cases "prev_is_word p")
          case pw: True
          show ?thesis
            using True pw s t
            by (simp add: Cons out word_runs_after_def snd_runs_from_same)
        next
          case pw: False
          have "c # takeWhile is_word cs \<notin> set alts"
            using pw True None unfolding Cons by (rule no_match_word)
          then show ?thesis
            using True pw s t
            by (auto simp: Cons out word_runs_after_def runs_Cons_same)
        qed
      next
        case False
        from IH False have s: "set (runs is_word out') \<subseteq> set (runs is_word cs) - set alts"
          by (simp add: word_runs_after_def prev_is_word_def)
        show ?thesis
          using False s
          by (simp add: Cons out word_runs_after_def snd_runs_from_other runs_Cons_other)
      qed
    qed
  next
    case (Some n)
    define p' where "p' = prev_after p (take n rest)"
    define rest' where "rest' = drop n rest"
    define out' where "out' = sub_scan alts p' rest' (n = 0)"
    have out: "sub_scan alts p rest adv = CHR '' '' # out'"
      using Some by (simp add: sub_scan_Some out'_def p'_def rest'_def)
    have IH: "set (word_runs_after p' out') \<subseteq> set (word_runs_after p' rest') - set alts
            \<and> (prev_is_word p' \<longrightarrow> takeWhile is_word out' = takeWhile is_word rest')"
      using "1.IH"(2) [OF Some] by (simp add: out'_def p'_def rest'_def)
    have E: "\<not> (prev_is_word p' \<and> next_is_word rest')"
      using match_here_end [OF Some] by (simp add: p'_def rest'_def)
    have B: "word_boundary p rest" using Some by (rule match_here_boundary)
    have le: "n \<le> length rest" using match_here_bounds [OF Some] by simp
    have X: "set (runs is_word out') \<subseteq> set (runs is_word rest') - set alts"
    proof (cases "prev_is_word p'")
      case True
      with E have "takeWhile is_word rest' = []" by (simp add: not_next_takeWhile)
      moreover from this IH True have "takeWhile is_word out' = []" by simp
      ultimately show ?thesis
        using IH True by (simp add: word_runs_after_def runs_no_lead)
    next
      case False
      with IH show ?thesis by (simp add: word_runs_after_def)
    qed
    have lead: "prev_is_word p \<Longrightarrow> takeWhile is_word rest = []"
      using B by (simp add: word_boundary_def not_next_takeWhile)
    have Y: "set (runs is_word rest') \<subseteq> set (word_runs_after p rest)"
    proof (cases "n = 0")
      case True
      then show ?thesis
        using lead by (auto simp: rest'_def word_runs_after_def runs_no_lead)
    next
      case False
      then have ne: "take n rest \<noteq> []" using le by auto
      then have p'': "p' = Some (last (take n rest))" by (simp add: p'_def prev_after_def)
      have "\<not> (is_word (last (take n rest)) \<and> drop n rest \<noteq> [] \<and> is_word (hd (drop n rest)))"
        using E by (cases "drop n rest") (auto simp: p'' rest'_def prev_is_word_def next_is_word_def)
      with False le have "set (runs is_word (drop n rest)) \<subseteq> set (snd (runs_from is_word rest))"
        by (intro runs_drop) auto
      then show ?thesis
        using snd_subset_runs [of is_word rest] by (auto simp: rest'_def word_runs_after_def)
    qed
    have "word_runs_after p (CHR '' '' # out') = runs is_word out'"
      by (simp add: word_runs_after_def snd_runs_from_other runs_Cons_other space_not_word)
    then show ?thesis
      using X Y lead by (auto simp: out space_not_word)
  qed
qed

lemma runs_nonempty: "[] \<notin> set (runs P s)"
  by (induction s) (auto simp: runs_eq runs_from_Cons pack_def split: if_splits)

lemma remove_stopwords_runs:
  "set (runs is_word (remove_stopwords stopwords s)) \<subseteq> set (runs is_word s) - set stopwords"
proof -
  have "set (runs is_word (remove_stopwords stopwords s))
          \<subseteq> set (runs is_word s) - set (alternatives stopwords)"
    using scan_runs [of None "alternatives stopwords" s False]
    by (simp add: remove_stopwords_def word_runs_after_def prev_is_word_def)
  moreover have "[] \<notin> set (runs is_word s)"
    by (rule runs_nonempty)
  ultimately show ?thesis by (auto simp: alternatives_def split: if_splits)
qed

lemma punct_not_alnum: "is_punct c \<Longrightarrow> \<not> is_alnum c"
  by (auto simp: is_punct_def is_alnum_def is_upper_def is_lower_def is_digit_def Let_def)

lemma space_not_alnum: "\<not> is_alnum CHR '' ''"
  by (simp add: is_alnum_def is_upper_def is_lower_def is_digit_def)

lemma alnum_not_space: "is_alnum c \<Longrightarrow> \<not> is_space c"
  by (auto simp: is_space_def is_alnum_def is_upper_def is_lower_def is_digit_def Let_def)

lemma runs_from_space_punct: "runs_from is_alnum (space_punct s) = runs_from is_alnum s"
proof (induction s)
  case Nil
  show ?case by simp
next
  case (Cons c cs)
  have t: "takeWhile is_alnum (space_punct cs) = takeWhile is_alnum cs"
    using Cons by (metis fst_runs_from)
  have r: "runs is_alnum (space_punct cs) = runs is_alnum cs"
    using Cons by (simp add: runs_def)
  show ?case
    using Cons t r
    by (auto simp: runs_from_Cons runs_Cons_other punct_not_alnum space_not_alnum)
qed

lemma runs_dropWhile_other: "runs P (dropWhile (\<lambda>d. \<not> P d) s) = runs P s"
  by (induction s) (auto simp: runs_Cons_other)

lemma dropWhile_lead:
  "dropWhile (\<lambda>d. \<not> P d) s = [] \<or> P (hd (dropWhile (\<lambda>d. \<not> P d) s))"
  using hd_dropWhile [of "\<lambda>d. \<not> P d" s] by auto

lemma last_dropWhile: "dropWhile Q s \<noteq> [] \<Longrightarrow> last (dropWhile Q s) = last s"
  by (induction s) (auto split: if_splits)

lemma squash_non_alnum_form:
  "squash_non_alnum s = takeWhile is_alnum s @ spaced (snd (runs_from is_alnum s)) @ trail s"
proof (induction s rule: squash_non_alnum.induct)
  case 1
  show ?case by (simp add: spaced_def trail_def)
next
  case (2 c cs)
  show ?case
  proof (cases "is_alnum c")
    case True
    have "trail (c # cs) = trail cs" using True by (simp add: trail_def)
    with 2 True show ?thesis by (simp add: runs_from_Cons)
  next
    case False
    define z where "z = dropWhile (\<lambda>d. \<not> is_alnum d) cs"
    have IH: "squash_non_alnum z = takeWhile is_alnum z @ spaced (snd (runs_from is_alnum z)) @ trail z"
      using 2 False by (simp add: z_def)
    have rz: "runs is_alnum cs = pack (takeWhile is_alnum z) (snd (runs_from is_alnum z))"
      using runs_dropWhile_other [of is_alnum cs] by (simp add: z_def runs_eq)
    show ?thesis
    proof (cases "z = []")
      case True
      then have "\<forall>x \<in> set cs. \<not> is_alnum x" by (simp add: z_def)
      then have "\<not> is_alnum (last (c # cs))" using False by auto
      then have "trail (c # cs) = '' ''" by (simp add: trail_def)
      with True False rz show ?thesis
        by (simp add: runs_from_Cons z_def [symmetric] pack_def spaced_def)
    next
      case nz: False
      then have "is_alnum (hd z)" using dropWhile_lead [of is_alnum cs] unfolding z_def by blast
      then have tk: "takeWhile is_alnum z \<noteq> []" using nz by (cases z) auto
      have "last z = last cs" using nz unfolding z_def by (rule last_dropWhile)
      moreover have "cs \<noteq> []" using nz by (auto simp: z_def)
      ultimately have "trail (c # cs) = trail z" using nz by (simp add: trail_def)
      with False rz tk IH show ?thesis
        by (simp add: runs_from_Cons z_def [symmetric] pack_def spaced_def)
    qed
  qed
qed

lemma good_tokens_Cons [simp]:
  "good_tokens P (t # ts) = (t \<noteq> [] \<and> (\<forall>c \<in> set t. P c) \<and> good_tokens P ts)"
  by (auto simp: good_tokens_def)

lemma good_tokens_Nil [simp]: "good_tokens P []"
  by (simp add: good_tokens_def)

lemma good_snd_runs_from: "good_tokens P (snd (runs_from P s))"
proof (induction s)
  case Nil
  show ?case by simp
next
  case (Cons c cs)
  have "good_tokens P (runs P cs)"
    using Cons by (auto simp: runs_eq pack_def dest: set_takeWhileD)
  with Cons show ?case by (simp add: runs_from_Cons)
qed

lemma good_runs: "good_tokens P (runs P s)"
  using good_snd_runs_from [of P s] by (auto simp: runs_eq pack_def dest: set_takeWhileD)

lemma spaced_Cons [simp]: "spaced (t # ts) = CHR '' '' # t @ spaced ts"
  by (simp add: spaced_def)

lemma spaced_Nil [simp]: "spaced [] = []"
  by (simp add: spaced_def)

lemma squash_spaces_token:
  "\<forall>c \<in> set t. c \<noteq> CHR '' '' \<Longrightarrow> squash_spaces (t @ rest) = t @ squash_spaces rest"
  by (induction t) auto

lemma squash_spaces_spaced:
  assumes "good_tokens is_alnum ts" and "tr = [] \<or> tr = '' ''"
  shows "squash_spaces (spaced ts @ tr) = spaced ts @ tr"
  using assms(1)
proof (induction ts)
  case Nil
  with assms(2) show ?case by auto
next
  case (Cons t ts)
  then have ne: "t \<noteq> []" and al: "\<forall>c \<in> set t. is_alnum c" and g: "good_tokens is_alnum ts" by auto
  have nsp: "\<forall>c \<in> set t. c \<noteq> CHR '' ''" using al space_not_alnum by auto
  obtain a u where t: "t = a # u" using ne by (cases t) auto
  have "a \<noteq> CHR '' ''" using nsp t by simp
  then have "squash_spaces (CHR '' '' # t @ spaced ts @ tr) = CHR '' '' # squash_spaces (t @ spaced ts @ tr)"
    by (simp add: t)
  also have "\<dots> = CHR '' '' # t @ squash_spaces (spaced ts @ tr)"
    using nsp by (simp add: squash_spaces_token)
  finally show ?case using Cons.IH [OF g] by simp
qed

lemma squash_spaces_form:
  assumes "\<forall>c \<in> set r. is_alnum c" and "good_tokens is_alnum ts" and "tr = [] \<or> tr = '' ''"
  shows "squash_spaces (r @ spaced ts @ tr) = r @ spaced ts @ tr"
proof -
  have "\<forall>c \<in> set r. c \<noteq> CHR '' ''" using assms(1) space_not_alnum by auto
  then show ?thesis
    using squash_spaces_spaced [OF assms(2,3)] by (simp add: squash_spaces_token)
qed

lemma unwords_ends:
  assumes "good_tokens is_alnum ts" and "ts \<noteq> []"
  shows "unwords ts \<noteq> [] \<and> is_alnum (hd (unwords ts)) \<and> is_alnum (last (unwords ts))"
proof -
  have sp: "good_tokens is_alnum us \<Longrightarrow> us \<noteq> [] \<Longrightarrow> spaced us \<noteq> [] \<and> is_alnum (last (spaced us))" for us
  proof (induction us)
    case Nil
    then show ?case by simp
  next
    case (Cons u us)
    then show ?case by (cases "us = []") auto
  qed
  from assms obtain t us where ts: "ts = t # us" by (cases ts) auto
  with assms have t: "t \<noteq> []" "\<forall>c \<in> set t. is_alnum c" and us: "good_tokens is_alnum us" by auto
  have "is_alnum (hd t)" "is_alnum (last t)" using t by auto
  then show ?thesis
    using t sp [OF us] by (cases "us = []") (auto simp: unwords_def ts)
qed

lemma dropWhile_hd: "s \<noteq> [] \<Longrightarrow> \<not> P (hd s) \<Longrightarrow> dropWhile P s = s"
  by (cases s) auto

lemma strip_inner:
  assumes "s \<noteq> []" and "\<not> is_space (hd s)" and "\<not> is_space (last s)"
  shows "strip s = s"
proof -
  have "dropWhile is_space s = s" using assms(1,2) by (rule dropWhile_hd)
  moreover have "dropWhile is_space (rev s) = rev s"
    using assms(1,3) by (intro dropWhile_hd) (simp_all add: hd_rev)
  ultimately show ?thesis by (simp add: strip_def)
qed

lemma is_space_space: "is_space CHR '' ''"
  by (simp add: is_space_def)

lemma strip_lead: "strip (CHR '' '' # s) = strip s"
  by (simp add: strip_def is_space_space)

lemma strip_trail: "strip (s @ '' '') = strip s"
proof (cases "\<forall>x \<in> set s. is_space x")
  case True
  then have d: "dropWhile is_space s = []" by simp
  show ?thesis by (simp add: strip_def is_space_space dropWhile_append d True)
next
  case False
  then obtain x where "x \<in> set s" "\<not> is_space x" by blast
  then have "dropWhile is_space (s @ '' '') = dropWhile is_space s @ '' ''"
    by (rule dropWhile_append1)
  then show ?thesis by (simp add: strip_def is_space_space)
qed

lemma strip_Nil: "strip [] = []"
  by (simp add: strip_def)

lemma strip_form:
  assumes r: "\<forall>c \<in> set r. is_alnum c" and ts: "good_tokens is_alnum ts" and tr: "tr = [] \<or> tr = '' ''"
  shows "strip (r @ spaced ts @ tr) = unwords (pack r ts)"
proof -
  have g: "good_tokens is_alnum (pack r ts)" using r ts by (simp add: pack_def)
  have a: "strip (r @ spaced ts @ tr) = strip (unwords (pack r ts))"
  proof (cases "r = []")
    case True
    then show ?thesis
      using tr by (cases ts) (auto simp: pack_def unwords_def strip_lead
                                     strip_trail [of "t @ spaced us" for t us, simplified])
  next
    case False
    then show ?thesis
      using tr strip_trail [of "r @ spaced ts"] by (auto simp: pack_def unwords_def)
  qed
  show ?thesis
  proof (cases "pack r ts = []")
    case True
    then show ?thesis using a by (simp add: unwords_def strip_Nil)
  next
    case False
    from unwords_ends [OF g False] have "strip (unwords (pack r ts)) = unwords (pack r ts)"
      by (intro strip_inner) (auto dest: alnum_not_space)
    with a show ?thesis by simp
  qed
qed

lemma normalised_form:
  "strip (squash_spaces (squash_non_alnum (space_punct s))) = unwords (runs is_alnum s)"
proof -
  define z where "z = space_punct s"
  have rz: "runs_from is_alnum z = runs_from is_alnum s"
    by (simp add: z_def runs_from_space_punct)
  have r: "\<forall>c \<in> set (takeWhile is_alnum z). is_alnum c" by (auto dest: set_takeWhileD)
  have ts: "good_tokens is_alnum (snd (runs_from is_alnum z))" by (rule good_snd_runs_from)
  have tr: "trail z = [] \<or> trail z = '' ''" by (simp add: trail_def)
  have "strip (squash_spaces (squash_non_alnum z))
      = unwords (pack (takeWhile is_alnum z) (snd (runs_from is_alnum z)))"
    by (simp only: squash_non_alnum_form squash_spaces_form [OF r ts tr] strip_form [OF r ts tr])
  also have "\<dots> = unwords (runs is_alnum s)"
    by (simp add: runs_eq [symmetric]) (simp add: runs_def rz)
  finally show ?thesis by (simp add: z_def)
qed

lemma prefix_stop:
  assumes "prefix u (a @ c # b)" and "c \<notin> set u"
  shows "prefix u a"
proof -
  from assms(1) have "prefix u a \<or> (\<exists>us. u = a @ us \<and> prefix us (c # b))"
    by (simp add: prefix_append)
  then show ?thesis
  proof
    assume "prefix u a" then show ?thesis .
  next
    assume "\<exists>us. u = a @ us \<and> prefix us (c # b)"
    then obtain us where u: "u = a @ us" and p: "prefix us (c # b)" by blast
    have "us = []" using p assms(2) u by (cases us) auto
    with u show ?thesis by simp
  qed
qed

lemma contains_prefix: "prefix u s \<Longrightarrow> contains s u"
  by (cases s) auto

lemma contains_split:
  "contains (a @ c # b) u \<Longrightarrow> c \<notin> set u \<Longrightarrow> contains a u \<or> contains b u"
proof (induction a)
  case Nil
  then show ?case by (cases u) auto
next
  case (Cons x a)
  from Cons.prems(1) have "prefix u ((x # a) @ c # b) \<or> contains (a @ c # b) u" by simp
  then show ?case
  proof
    assume "prefix u ((x # a) @ c # b)"
    then have "prefix u (x # a)" using Cons.prems(2) by (rule prefix_stop)
    then show ?thesis by (auto dest: contains_prefix)
  next
    assume "contains (a @ c # b) u"
    with Cons show ?thesis by auto
  qed
qed

lemma contains_unwords_aux:
  "contains (t @ spaced us) u \<Longrightarrow> CHR '' '' \<notin> set u \<Longrightarrow> \<exists>t' \<in> set (t # us). contains t' u"
proof (induction us arbitrary: t)
  case Nil
  then show ?case by simp
next
  case (Cons v us)
  from Cons.prems have "contains t u \<or> contains (v @ spaced us) u"
    by (auto dest: contains_split)
  with Cons show ?case by fastforce
qed

lemma contains_unwords:
  "contains (unwords ts) u \<Longrightarrow> CHR '' '' \<notin> set u \<Longrightarrow> u \<noteq> [] \<Longrightarrow> \<exists>t \<in> set ts. contains t u"
proof (cases ts)
  case Nil
  assume "contains (unwords ts) u" "u \<noteq> []"
  with Nil show ?thesis by (simp add: unwords_def)
next
  case (Cons t us)
  assume "contains (unwords ts) u" "CHR '' '' \<notin> set u"
  then have "\<exists>t' \<in> set (t # us). contains t' u"
    unfolding Cons unwords_def by (simp only: list.case) (rule contains_unwords_aux)
  with Cons show ?thesis by simp
qed

lemma strip_urls_id: "\<not> contains s ''http'' \<Longrightarrow> strip_urls s = s"
proof (induction s)
  case Nil
  show ?case by simp
next
  case (Cons c cs)
  then have np: "\<not> prefix ''http'' (c # cs)" and nc: "\<not> contains cs ''http''" by auto
  have nu: "\<not> url_here (c # cs)" unfolding url_here_def using np by blast
  show ?case using Cons.IH [OF nc] by (simp add: nu)
qed

lemma set_strip_urls: "set (strip_urls s) \<subseteq> set s"
proof (induction s rule: strip_urls.induct)
  case 1
  show ?case by simp
next
  case (2 c cs)
  have "set (dropWhile (\<lambda>d. \<not> is_space d) (drop 4 (c # cs))) \<subseteq> set (c # cs)"
    by (meson set_dropWhileD set_drop_subset subsetD subsetI)
  with 2 show ?case by (auto simp del: drop_Suc_Cons)
qed

lemma contains_set: "contains s u \<Longrightarrow> set u \<subseteq> set s"
proof (induction s)
  case Nil
  then show ?case by simp
next
  case (Cons a s)
  then have "prefix u (a # s) \<or> contains s u" by simp
  then show ?case
  proof
    assume "prefix u (a # s)"
    then show ?thesis by (rule set_mono_prefix)
  next
    assume "contains s u"
    with Cons.IH show ?thesis by auto
  qed
qed

lemma runs_from_token:
  "\<forall>c \<in> set t. Q c \<Longrightarrow> runs_from Q (t @ rest) = (t @ takeWhile Q rest, snd (runs_from Q rest))"
  by (induction t) (simp_all add: runs_from_Cons fst_runs_from [symmetric])

lemma runs_unwords_aux:
  "good_tokens Q (t # us) \<Longrightarrow> \<not> Q CHR '' '' \<Longrightarrow> runs Q (t @ spaced us) = t # us"
proof (induction us arbitrary: t)
  case Nil
  then show ?case
    using runs_from_token [of t Q "[]"] by (simp add: runs_def pack_def)
next
  case (Cons v us)
  have "runs Q (v @ spaced us) = v # us" using Cons by simp
  then show ?case
    using Cons.prems runs_from_token [of t Q "CHR '' '' # v @ spaced us"]
    by (simp add: runs_def pack_def runs_from_Cons)
qed

lemma runs_unwords: "good_tokens Q ts \<Longrightarrow> \<not> Q CHR '' '' \<Longrightarrow> runs Q (unwords ts) = ts"
  by (cases ts) (simp_all add: unwords_def runs_unwords_aux)

lemma set_unwords: "set (unwords ts) \<subseteq> insert CHR '' '' (\<Union> (set ` set ts))"
  by (cases ts) (auto simp: unwords_def spaced_def)

lemma set_sub_scan: "set (sub_scan alts p rest adv) \<subseteq> insert CHR '' '' (set rest)"
proof (induction alts p rest adv rule: sub_scan.induct)
  case (1 alts p rest adv)
  show ?case
  proof (cases "match_here alts p rest adv")
    case None
    with "1.IH"(1) show ?thesis by (cases rest) (auto simp: sub_scan_None)
  next
    case (Some n)
    have "set (drop n rest) \<subseteq> set rest" by (rule set_drop_subset)
    with "1.IH"(2) [OF Some] show ?thesis by (auto simp: sub_scan_Some [OF Some])
  qed
qed

lemma runs_from_cong: "\<forall>c \<in> set s. P c = Q c \<Longrightarrow> runs_from P s = runs_from Q s"
  by (induction s) (simp_all add: runs_from.simps runs_def)

lemma runs_cong: "\<forall>c \<in> set s. P c = Q c \<Longrightarrow> runs P s = runs Q s"
  unfolding runs_def by (simp only: runs_from_cong [of s P Q])

lemma word_alnum: "c \<noteq> CHR ''_'' \<Longrightarrow> is_word c = is_alnum c"
  by (simp add: is_word_def)

lemma underscore_not_alnum: "\<not> is_alnum CHR ''_''"
  by (simp add: is_alnum_def is_upper_def is_lower_def is_digit_def)

text \<open>The tokens of the normalised text are words of the lowercased text, and no stopword
  is among them, when the text has no underscore.\<close>

lemma normalise_tokens:
  assumes "CHR ''_'' \<notin> set (lower text)"
  shows "normalise text stopwords = unwords (runs is_alnum (remove_stopwords stopwords (lower text)))"
    and "set (runs is_alnum (remove_stopwords stopwords (lower text)))
           \<subseteq> set (runs is_alnum (lower text)) - set stopwords"
proof -
  show "normalise text stopwords = unwords (runs is_alnum (remove_stopwords stopwords (lower text)))"
    by (simp add: normalise_def normalised_form)
  have "set (remove_stopwords stopwords (lower text)) \<subseteq> insert CHR '' '' (set (lower text))"
    by (simp add: remove_stopwords_def set_sub_scan)
  with assms have "CHR ''_'' \<notin> set (remove_stopwords stopwords (lower text))" by auto
  then have a: "runs is_alnum (remove_stopwords stopwords (lower text))
              = runs is_word (remove_stopwords stopwords (lower text))"
    by (intro runs_cong) (metis word_alnum)
  have b: "runs is_alnum (lower text) = runs is_word (lower text)"
    using assms by (intro runs_cong) (metis word_alnum)
  show "set (runs is_alnum (remove_stopwords stopwords (lower text)))
           \<subseteq> set (runs is_alnum (lower text)) - set stopwords"
    unfolding a b by (rule remove_stopwords_runs)
qed

lemma lower_char_idem: "lower_char (lower_char c) = lower_char c"
  by (auto simp: lower_char_def is_upper_def)

lemma lower_lower: "lower (lower s) = lower s"
  by (simp add: lower_def lower_char_idem)

lemma lower_space: "lower_char CHR '' '' = CHR '' ''"
  by (simp add: lower_char_def is_upper_def)

lemma lower_fixed:
  assumes "set t \<subseteq> insert CHR '' '' (set (lower s))"
  shows "lower t = t"
proof -
  have "lower_char x = x" if "x \<in> set t" for x
  proof -
    from that assms have "x = CHR '' '' \<or> x \<in> lower_char ` set s" by (auto simp: lower_def)
    then show ?thesis by (auto simp: lower_space lower_char_idem)
  qed
  then show ?thesis by (simp add: lower_def map_idI)
qed

lemma set_runs_from:
  "set (fst (runs_from P s)) \<subseteq> set s \<and> \<Union> (set ` set (snd (runs_from P s))) \<subseteq> set s"
proof (induction s)
  case Nil
  show ?case by simp
next
  case (Cons c cs)
  then show ?case
    by (auto simp: runs_from_Cons runs_eq pack_def fst_runs_from dest: set_takeWhileD split: if_splits)
qed

lemma set_runs: "\<Union> (set ` set (runs P s)) \<subseteq> set s"
  using set_runs_from [of P s] by (auto simp: runs_eq pack_def fst_runs_from split: if_splits)

lemma maximal_word:
  assumes "prefix w rest" and "\<forall>c \<in> set w. is_word c" and "\<not> next_is_word (drop (length w) rest)"
  shows "w = takeWhile is_word rest"
proof -
  from assms(1) obtain r where rest: "rest = w @ r" by (auto simp: prefix_def)
  with assms(3) have "takeWhile is_word r = []" by (simp add: not_next_takeWhile)
  with assms(2) show ?thesis by (simp add: rest takeWhile_append2)
qed

text \<open>Where no alternative is a word of the text, a match is empty or white space.\<close>

lemma match_only_space:
  assumes words: "\<forall>w \<in> set alts. (\<forall>c \<in> set w. is_word c) \<or> (\<exists>c \<in> set w. c \<notin> A)"
      and inA: "set rest \<subseteq> A"
      and absent: "\<forall>w \<in> set alts. w \<noteq> [] \<longrightarrow> w \<notin> set (word_runs_after p rest)"
      and m: "match_here alts p rest adv = Some n"
  shows "n = length (takeWhile is_space rest)"
proof -
  from m have b: "word_boundary p rest" and fm: "first_match alts p rest adv = Some n"
    by (auto simp: match_here_def split: if_splits)
  from fm obtain w where w: "w \<in> set alts" and ma: "match_alt p rest w = Some n"
    by (auto dest: first_match_Some)
  from ma have pw: "prefix w rest" and be: "word_boundary (prev_after p w) (drop (length w) rest)"
    and n: "n = length w + length (takeWhile is_space (drop (length w) rest))"
    by (auto simp: match_alt_def split: if_splits)
  have "w = []"
  proof (rule ccontr)
    assume ne: "w \<noteq> []"
    have "set w \<subseteq> A" using pw inA set_mono_prefix by blast
    then have ww: "\<forall>c \<in> set w. is_word c" using words w by blast
    then have "is_word (last w)" "is_word (hd w)" using ne by auto
    then have "prev_is_word (prev_after p w)" using ne by (simp add: prev_after_def prev_is_word_def)
    with be have nn: "\<not> next_is_word (drop (length w) rest)" by (simp add: word_boundary_def)
    have tw: "w = takeWhile is_word rest" using pw ww nn by (rule maximal_word)
    from pw ne \<open>is_word (hd w)\<close> have "next_is_word rest"
      by (cases rest; cases w) (auto simp: next_is_word_def)
    with b have np: "\<not> prev_is_word p" by (simp add: word_boundary_def)
    have "w \<in> set (runs is_word rest)" using tw ne by (simp add: runs_eq pack_def)
    then have "w \<in> set (word_runs_after p rest)" using np by (simp add: word_runs_after_def)
    with absent w ne show False by blast
  qed
  with n show ?thesis by simp
qed

lemma runs_dropWhile_space: "runs is_word (dropWhile is_space s) = runs is_word s"
  by (induction s) (auto simp: runs_Cons_other is_space_not_word)

lemma scan_keeps:
  "\<forall>w \<in> set alts. (\<forall>c \<in> set w. is_word c) \<or> (\<exists>c \<in> set w. c \<notin> A) \<Longrightarrow>
   set rest \<subseteq> A \<Longrightarrow>
   \<forall>w \<in> set alts. w \<noteq> [] \<longrightarrow> w \<notin> set (word_runs_after p rest) \<Longrightarrow>
   runs is_word (sub_scan alts p rest adv) = runs is_word rest
   \<and> (prev_is_word p \<longrightarrow> runs_from is_word (sub_scan alts p rest adv) = runs_from is_word rest)"
proof (induction alts p rest adv rule: sub_scan.induct)
  case (1 alts p rest adv)
  note words' = "1.prems"(1) and inA = "1.prems"(2) and absent = "1.prems"(3)
  have inA': "set (drop n rest) \<subseteq> A" for n
    using inA set_drop_subset [of n rest] by blast
  show ?case
  proof (cases "match_here alts p rest adv")
    case None
    show ?thesis
    proof (cases rest)
      case Nil
      with None show ?thesis by (simp add: sub_scan_None)
    next
      case (Cons c cs)
      define out' where "out' = sub_scan alts (Some c) cs False"
      have out: "sub_scan alts p (c # cs) adv = c # out'"
        using None Cons by (simp add: sub_scan_None out'_def)
      have sub: "set (word_runs_after (Some c) cs) \<subseteq> set (word_runs_after p (c # cs))"
        using snd_subset_runs [of is_word cs]
        by (cases "is_word c")
           (auto simp: word_runs_after_def prev_is_word_def snd_runs_from_same snd_runs_from_other
                       runs_Cons_same runs_Cons_other)
      have "\<forall>w \<in> set alts. w \<noteq> [] \<longrightarrow> w \<notin> set (word_runs_after (Some c) cs)"
        using absent sub unfolding Cons by blast
      have "set cs \<subseteq> A" using inA Cons by auto
      from "1.IH"(1) [OF None Cons words' this \<open>\<forall>w \<in> set alts. w \<noteq> [] \<longrightarrow> w \<notin> set (word_runs_after (Some c) cs)\<close>]
      have IH: "runs is_word out' = runs is_word cs"
               "is_word c \<longrightarrow> runs_from is_word out' = runs_from is_word cs"
        by (simp_all add: out'_def prev_is_word_def)
      have "runs_from is_word (c # out') = runs_from is_word (c # cs)"
        using IH by (cases "is_word c") (simp_all add: runs_from_Cons fst_runs_from [symmetric])
      then show ?thesis by (simp add: Cons out runs_def)
    qed
  next
    case (Some n)
    define k where "k = length (takeWhile is_space rest)"
    have n: "n = k" unfolding k_def using words' inA absent Some by (rule match_only_space)
    have B: "word_boundary p rest" using Some by (rule match_here_boundary)
    have lead: "prev_is_word p \<Longrightarrow> takeWhile is_word rest = []"
      using B by (simp add: word_boundary_def not_next_takeWhile)
    define out' where "out' = sub_scan alts (prev_after p (take n rest)) (drop n rest) (n = 0)"
    have out: "sub_scan alts p rest adv = CHR '' '' # out'"
      using Some by (simp add: sub_scan_Some out'_def)
    have R: "runs is_word out' = runs is_word rest"
    proof (cases "k = 0")
      case True
      have "runs is_word (sub_scan alts (prev_after p (take n rest)) (drop n rest) (n = 0))
              = runs is_word (drop n rest)"
        using "1.IH"(2) [OF Some words' inA'] absent n True by (simp add: prev_after_def)
      then show ?thesis using n True by (simp add: out'_def)
    next
      case False
      have tk: "take n rest = takeWhile is_space rest" and dr: "drop n rest = dropWhile is_space rest"
        unfolding n k_def by (simp_all add: takeWhile_eq_take [symmetric] dropWhile_eq_drop [symmetric])
      have ne: "takeWhile is_space rest \<noteq> []" using False by (simp add: k_def)
      then have "last (takeWhile is_space rest) \<in> set (takeWhile is_space rest)" by simp
      then have "is_space (last (takeWhile is_space rest))" by (meson set_takeWhileD)
      then have np': "\<not> prev_is_word (prev_after p (take n rest))"
        using ne by (simp add: tk prev_after_def prev_is_word_def is_space_not_word)
      have sp: "is_space (hd rest)" "rest \<noteq> []" using ne by (cases rest; auto split: if_splits)+
      then have tw: "takeWhile is_word rest = []" by (cases rest) (auto simp: is_space_not_word)
      have wra: "word_runs_after p rest = runs is_word rest"
        using tw by (simp add: word_runs_after_def runs_no_lead)
      have wra': "word_runs_after (prev_after p (take n rest)) (drop n rest) = runs is_word rest"
        using np' by (simp add: word_runs_after_def dr runs_dropWhile_space)
      have "\<forall>w \<in> set alts. w \<noteq> [] \<longrightarrow>
              w \<notin> set (word_runs_after (prev_after p (take n rest)) (drop n rest))"
        using absent by (simp only: wra wra')
      from "1.IH"(2) [OF Some words' inA' this]
      have "runs is_word out' = runs is_word (drop n rest)" by (simp add: out'_def)
      then show ?thesis by (simp add: dr runs_dropWhile_space)
    qed
    have a: "runs is_word (sub_scan alts p rest adv) = runs is_word rest"
      using R by (simp add: out runs_Cons_other space_not_word)
    have b: "runs_from is_word (sub_scan alts p rest adv) = runs_from is_word rest" if "prev_is_word p"
    proof -
      have "runs_from is_word rest = ([], snd (runs_from is_word rest))"
        using lead [OF that] by (metis fst_runs_from prod.collapse)
      moreover have "runs is_word rest = snd (runs_from is_word rest)"
        using lead [OF that] by (rule runs_no_lead)
      ultimately show ?thesis
        using R by (simp add: out runs_from_Cons space_not_word)
    qed
    show ?thesis using a b by blast
  qed
qed

lemma sample_lower: "lower ''Hi! Please Give me some text.'' = ''hi! please give me some text.''"
  by code_simp

lemma sample_words:
  "runs is_alnum ''hi! please give me some text.''
     = [''hi'', ''please'', ''give'', ''me'', ''some'', ''text'']"
  by code_simp

lemma sample_no_http:
  "\<forall>t \<in> set [''hi'', ''please'', ''give'', ''me'', ''some'', ''text'']. \<not> contains t ''http''"
  by simp

lemma alnum_not_punct: "is_alnum c \<Longrightarrow> \<not> is_punct c"
  using punct_not_alnum by blast

lemma space_not_punct: "\<not> is_punct CHR '' ''"
  by (simp add: is_punct_def)

text \<open>
  C2, as the code has it. For the input \<open>Hi! Please Give me some text.\<close> and any list of
  literal stopwords that contains \<open>please\<close>, every token of the output is one of \<open>hi\<close>,
  \<open>give\<close>, \<open>me\<close>, \<open>some\<close>, \<open>text\<close> and none is a stopword, and the output holds no
  punctuation character: the fourth step removes the punctuation that the third step
  had set apart.
\<close>

theorem clean_text_sample:
  assumes "''please'' \<in> set stopwords"
      and "\<forall>w \<in> set stopwords. literal w"
  shows "set (tokens (clean_text ''Hi! Please Give me some text.'' stopwords))
           \<subseteq> {''hi'', ''give'', ''me'', ''some'', ''text''} - set stopwords
       \<and> (\<forall>c \<in> set (clean_text ''Hi! Please Give me some text.'' stopwords). \<not> is_punct c)"
proof -
  let ?text = "''Hi! Please Give me some text.''"
  define ts where "ts = runs is_alnum (remove_stopwords stopwords (lower ?text))"
  have nu: "CHR ''_'' \<notin> set (lower ?text)" by (simp add: sample_lower)
  have n: "normalise ?text stopwords = unwords ts"
    unfolding ts_def by (rule normalise_tokens(1) [OF nu])
  have sub: "set ts \<subseteq> set [''hi'', ''please'', ''give'', ''me'', ''some'', ''text''] - set stopwords"
    using normalise_tokens(2) [OF nu, of stopwords] by (simp only: ts_def sample_lower sample_words)
  have g: "good_tokens is_alnum ts" unfolding ts_def by (rule good_runs)
  have "\<not> contains (unwords ts) ''http''"
  proof
    assume "contains (unwords ts) ''http''"
    then obtain t where "t \<in> set ts" "contains t ''http''"
      using contains_unwords [of ts "''http''"] by auto
    with sub sample_no_http show False by blast
  qed
  then have c: "clean_text ?text stopwords = unwords ts"
    by (simp add: clean_text_def n strip_urls_id)
  have g': "good_tokens (\<lambda>c. \<not> is_space c) ts"
    using g by (auto simp: good_tokens_def dest: alnum_not_space)
  have tk: "tokens (unwords ts) = ts"
    unfolding tokens_def using g' by (rule runs_unwords) (simp add: is_space_space)
  have a: "set (tokens (clean_text ?text stopwords))
             \<subseteq> {''hi'', ''give'', ''me'', ''some'', ''text''} - set stopwords"
    using sub assms by (auto simp: c tk)
  have b: "\<forall>c \<in> set (clean_text ?text stopwords). \<not> is_punct c"
  proof
    fix x assume "x \<in> set (clean_text ?text stopwords)"
    then have "x = CHR '' '' \<or> (\<exists>t \<in> set ts. x \<in> set t)"
      using set_unwords [of ts] by (auto simp: c)
    then show "\<not> is_punct x"
      using g by (auto simp: good_tokens_def space_not_punct alnum_not_punct)
  qed
  show ?thesis using a b by blast
qed

theorem clean_text_sample_witness:
  "''please'' \<in> set [''please'', ''me'']
   \<and> clean_text ''Hi! Please Give me some text.'' [''please'', ''me''] = ''hi give some text''
   \<and> set (tokens ''hi give some text'')
        \<subseteq> {''hi'', ''give'', ''me'', ''some'', ''text''} - set [''please'', ''me'']"
proof -
  have h: "''please'' \<in> set [''please'', ''me'']" by simp
  have l: "\<forall>w \<in> set [''please'', ''me'']. literal w" by code_simp
  have e: "clean_text ''Hi! Please Give me some text.'' [''please'', ''me''] = ''hi give some text''"
    by code_simp
  show ?thesis
    using h e clean_text_sample [OF h l] by simp
qed

text \<open>
  C2 as stated fails with the stopword list \<open>[please]\<close>: the exclamation mark of the input,
  a character of the punctuation set, is no token of the output.
\<close>

theorem clean_text_sample_punctuation_counterexample:
  "''please'' \<in> set [''please'']
   \<and> CHR ''!'' \<in> set ''Hi! Please Give me some text.''
   \<and> is_punct CHR ''!''
   \<and> clean_text ''Hi! Please Give me some text.'' [''please''] = ''hi give me some text''
   \<and> ''!'' \<notin> set (tokens (clean_text ''Hi! Please Give me some text.'' [''please'']))"
proof -
  have e: "clean_text ''Hi! Please Give me some text.'' [''please''] = ''hi give me some text''"
    by code_simp
  have t: "tokens ''hi give me some text'' = [''hi'', ''give'', ''me'', ''some'', ''text'']"
    by code_simp
  have p: "is_punct CHR ''!''" by code_simp
  show ?thesis by (simp add: e t p)
qed

lemma set_normalise_alnum:
  "\<forall>c \<in> set (unwords (runs is_alnum s)). is_alnum c \<or> c = CHR '' ''"
proof
  fix x assume "x \<in> set (unwords (runs is_alnum s))"
  then have "x = CHR '' '' \<or> (\<exists>t \<in> set (runs is_alnum s). x \<in> set t)"
    using set_unwords [of "runs is_alnum s"] by auto
  then show "is_alnum x \<or> x = CHR '' ''"
    using good_runs [of is_alnum s] by (auto simp: good_tokens_def)
qed

lemma set_clean_text: "\<forall>c \<in> set (clean_text text stopwords). is_alnum c \<or> c = CHR '' ''"
proof
  fix x assume "x \<in> set (clean_text text stopwords)"
  then have "x \<in> set (normalise text stopwords)"
    using set_strip_urls by (auto simp: clean_text_def)
  then show "is_alnum x \<or> x = CHR '' ''"
    using set_normalise_alnum by (simp add: normalise_def normalised_form)
qed

lemma prefix_http:
  "prefix w ''http'' \<longleftrightarrow> w = [] \<or> w = ''h'' \<or> w = ''ht'' \<or> w = ''htt'' \<or> w = ''http''"
  by (auto simp: prefix_Cons)

lemma word_h: "is_word CHR ''h''" and word_t: "is_word CHR ''t''" and word_p: "is_word CHR ''p''"
  by code_simp+

lemma not_space_h: "\<not> is_space CHR ''h''"
  by code_simp

lemma match_alt_http:
  "match_alt None ''http'' w = (if w = [] then Some 0 else if w = ''http'' then Some 4 else None)"
proof -
  consider "w = []" | "w = ''h''" | "w = ''ht''" | "w = ''htt''" | "w = ''http''"
    | "\<not> prefix w ''http''"
    using prefix_http by blast
  then show ?thesis
  proof cases
    case 1
    then show ?thesis
      by (simp add: match_alt_def word_boundary_def prev_after_def prev_is_word_def
                    next_is_word_def word_h not_space_h)
  next
    case 2
    then show ?thesis
      by (simp add: match_alt_def word_boundary_def prev_after_def prev_is_word_def
                    next_is_word_def word_h word_t)
  next
    case 3
    then show ?thesis
      by (simp add: match_alt_def word_boundary_def prev_after_def prev_is_word_def
                    next_is_word_def word_t)
  next
    case 4
    then show ?thesis
      by (simp add: match_alt_def word_boundary_def prev_after_def prev_is_word_def
                    next_is_word_def word_t word_p)
  next
    case 5
    then show ?thesis
      by (simp add: match_alt_def word_boundary_def prev_after_def prev_is_word_def
                    next_is_word_def word_p)
  next
    case 6
    then have "w \<noteq> []" "w \<noteq> ''http''" by auto
    with 6 show ?thesis by (simp add: match_alt_def)
  qed
qed

lemma match_alt_end_of_text:
  "match_alt (Some c) [] w = (if w = [] \<and> is_word c then Some 0 else None)"
  by (auto simp: match_alt_def word_boundary_def prev_after_def prev_is_word_def next_is_word_def)

lemma first_match_http:
  "''http'' \<notin> set alts \<Longrightarrow>
   first_match alts None ''http'' adv = (if [] \<in> set alts \<and> \<not> adv then Some 0 else None)"
  by (induction alts) (auto simp: match_alt_http)

lemma first_match_end_of_text:
  "is_word c \<Longrightarrow>
   first_match alts (Some c) [] adv = (if [] \<in> set alts \<and> \<not> adv then Some 0 else None)"
  by (induction alts) (auto simp: match_alt_end_of_text)

lemma scan_http:
  assumes "''http'' \<notin> set alts"
  shows "sub_scan alts None ''http'' False = (if [] \<in> set alts then '' http '' else ''http'')"
proof -
  have m0: "match_here alts None ''http'' adv = (if [] \<in> set alts \<and> \<not> adv then Some 0 else None)" for adv
    using first_match_http [OF assms]
    by (simp add: match_here_def word_boundary_def prev_is_word_def next_is_word_def word_h)
  have m1: "match_here alts (Some CHR ''h'') ''ttp'' False = None"
    by (simp add: match_here_def word_boundary_def prev_is_word_def next_is_word_def word_h word_t)
  have m2: "match_here alts (Some CHR ''t'') ''tp'' False = None"
    by (simp add: match_here_def word_boundary_def prev_is_word_def next_is_word_def word_t)
  have m3: "match_here alts (Some CHR ''t'') ''p'' False = None"
    by (simp add: match_here_def word_boundary_def prev_is_word_def next_is_word_def word_t word_p)
  have m4: "match_here alts (Some CHR ''p'') [] adv = (if [] \<in> set alts \<and> \<not> adv then Some 0 else None)" for adv
    using first_match_end_of_text [OF word_p]
    by (simp add: match_here_def word_boundary_def prev_is_word_def next_is_word_def word_p)
  have tail: "sub_scan alts (Some CHR ''p'') [] False = (if [] \<in> set alts then '' '' else [])"
    by (subst sub_scan.simps, simp add: m4 prev_after_def, subst sub_scan.simps, simp add: m4)
  have body: "sub_scan alts None ''http'' True = ''http'' @ sub_scan alts (Some CHR ''p'') [] False"
    apply (subst sub_scan.simps, simp add: m0)
    apply (subst sub_scan.simps, simp add: m1)
    apply (subst sub_scan.simps, simp add: m2)
    apply (subst sub_scan.simps, simp add: m3)
    done
  have body': "sub_scan alts None ''http'' False
             = (if [] \<in> set alts then CHR '' '' # sub_scan alts None ''http'' True
                else ''http'' @ sub_scan alts (Some CHR ''p'') [] False)"
    apply (subst sub_scan.simps, simp add: m0 prev_after_def)
    apply (intro impI)
    apply (subst sub_scan.simps, simp add: m1)
    apply (subst sub_scan.simps, simp add: m2)
    apply (subst sub_scan.simps, simp add: m3)
    done
  show ?thesis by (simp add: body' body tail)
qed

lemma rest_http: "strip_urls (strip (squash_spaces (squash_non_alnum (space_punct ''http'')))) = ''http''"
  by code_simp

lemma rest_http_spaced:
  "strip_urls (strip (squash_spaces (squash_non_alnum (space_punct '' http '')))) = ''http''"
  by code_simp

lemma lower_http: "lower ''http'' = ''http''"
  by code_simp

lemma bare_http:
  assumes "''http'' \<notin> set stopwords"
  shows "clean_text ''http'' stopwords = ''http''"
proof -
  from assms have "''http'' \<notin> set (alternatives stopwords)" by (simp add: alternatives_def)
  from scan_http [OF this]
  have "remove_stopwords stopwords ''http'' = ''http''
      \<or> remove_stopwords stopwords ''http'' = '' http ''"
    by (simp add: remove_stopwords_def)
  then show ?thesis
    by (elim disjE) (simp_all only: clean_text_def normalise_def lower_http rest_http
                                    rest_http_spaced)
qed

text \<open>Stopwords of letters and digits that are no words of the text leave its words as they
  are: the first five steps then give the words of the lowercased text, one space apart.\<close>

lemma normalise_untouched:
  assumes nu: "CHR ''_'' \<notin> set (lower text)"
      and sw: "\<forall>w \<in> set stopwords. (\<forall>c \<in> set w. is_alnum c) \<and> w \<notin> set (runs is_alnum (lower text))"
  shows "normalise text stopwords = unwords (runs is_alnum (lower text))"
proof -
  define y where "y = remove_stopwords stopwords (lower text)"
  have rw: "runs is_word (lower text) = runs is_alnum (lower text)"
    using nu runs_cong [of "lower text" is_word is_alnum] by (metis word_alnum)
  have words: "\<forall>w \<in> set (alternatives stopwords).
                 (\<forall>c \<in> set w. is_word c) \<or> (\<exists>c \<in> set w. c \<notin> (UNIV :: char set))"
    using sw by (auto simp: alternatives_def is_word_def split: if_splits)
  have inA: "set (lower text) \<subseteq> (UNIV :: char set)" by simp
  have absent: "\<forall>w \<in> set (alternatives stopwords).
                  w \<noteq> [] \<longrightarrow> w \<notin> set (word_runs_after None (lower text))"
    using sw by (auto simp: alternatives_def word_runs_after_def prev_is_word_def rw
                      split: if_splits)
  have ry: "runs is_word y = runs is_word (lower text)"
    using scan_keeps [OF words inA absent, of False] by (simp add: y_def remove_stopwords_def)
  have "set y \<subseteq> insert CHR '' '' (set (lower text))"
    unfolding y_def remove_stopwords_def by (rule set_sub_scan)
  with nu have "CHR ''_'' \<notin> set y" by auto
  then have "runs is_alnum y = runs is_word y"
    using runs_cong [of y is_alnum is_word] by (metis word_alnum)
  with ry rw have "runs is_alnum y = runs is_alnum (lower text)" by simp
  then show ?thesis
    using normalise_tokens(1) [OF nu, of stopwords] by (simp add: y_def)
qed

lemma url_words:
  "runs is_alnum (lower ''visit http://example.com now'')
     = [''visit'', ''http'', ''example'', ''com'', ''now'']"
  by code_simp

lemma url_words_https:
  "runs is_alnum (lower ''visit https://example.com now'')
     = [''visit'', ''https'', ''example'', ''com'', ''now'']"
  by code_simp

lemma url_rest:
  "strip_urls (unwords [''visit'', ''http'', ''example'', ''com'', ''now''])
     = ''visit http example com now''"
  by code_simp

lemma url_rest_https:
  "strip_urls (unwords [''visit'', ''https'', ''example'', ''com'', ''now''])
     = ''visit  example com now''"
  by code_simp

lemma url_no_underscore:
  "CHR ''_'' \<notin> set (lower ''visit http://example.com now'')"
  "CHR ''_'' \<notin> set (lower ''visit https://example.com now'')"
  by code_simp+

text \<open>
  C3 as stated fails as a statement of URL stripping: in the output for
  \<open>visit http://example.com now\<close> the URL is still there but for its punctuation, its words
  \<open>http\<close>, \<open>example\<close> and \<open>com\<close> are tokens of the output, and the output is not
  \<open>visit now\<close>.
\<close>

theorem clean_text_url_counterexample:
  "clean_text ''visit http://example.com now'' [''please''] = ''visit http example com now''
   \<and> tokens (clean_text ''visit http://example.com now'' [''please''])
       = [''visit'', ''http'', ''example'', ''com'', ''now'']
   \<and> contains (clean_text ''visit http://example.com now'' [''please'']) ''http''
   \<and> clean_text ''visit http://example.com now'' [''please''] \<noteq> ''visit now''"
proof -
  have e: "clean_text ''visit http://example.com now'' [''please''] = ''visit http example com now''"
    by code_simp
  have t: "tokens ''visit http example com now'' = [''visit'', ''http'', ''example'', ''com'', ''now'']"
    by code_simp
  have c: "contains ''visit http example com now'' ''http''"
    by code_simp
  show ?thesis by (simp add: e t c)
qed

text \<open>
  C3, as the code has it. Take literal stopwords. If they are made of letters and digits
  and none is a word of the two inputs, the output for \<open>visit http://example.com now\<close> is
  \<open>visit http example com now\<close>: the third and fourth steps break the URL into the words
  \<open>http\<close>, \<open>example\<close>, \<open>com\<close> before the URL pattern is applied, and the pattern does not
  match the word \<open>http\<close>. The pattern removes a word that starts with \<open>http\<close> and goes on:
  the output for \<open>visit https://example.com now\<close> is \<open>visit  example com now\<close>, without
  \<open>https\<close> and with the two spaces around it. The input \<open>http\<close> is returned as it is when
  \<open>http\<close> is not a stopword.
\<close>

theorem clean_text_url:
  assumes "\<forall>w \<in> set stopwords. literal w"
  shows "((\<forall>w \<in> set stopwords. (\<forall>c \<in> set w. is_alnum c)
              \<and> w \<notin> set [''visit'', ''http'', ''https'', ''example'', ''com'', ''now'']) \<longrightarrow>
            clean_text ''visit http://example.com now'' stopwords = ''visit http example com now''
          \<and> clean_text ''visit https://example.com now'' stopwords = ''visit  example com now'')
       \<and> (''http'' \<notin> set stopwords \<longrightarrow> clean_text ''http'' stopwords = ''http'')"
proof (intro conjI impI)
  assume h: "\<forall>w \<in> set stopwords. (\<forall>c \<in> set w. is_alnum c)
               \<and> w \<notin> set [''visit'', ''http'', ''https'', ''example'', ''com'', ''now'']"
  have a: "\<forall>w \<in> set stopwords. (\<forall>c \<in> set w. is_alnum c)
             \<and> w \<notin> set (runs is_alnum (lower ''visit http://example.com now''))"
    using h by (simp add: url_words)
  have b: "\<forall>w \<in> set stopwords. (\<forall>c \<in> set w. is_alnum c)
             \<and> w \<notin> set (runs is_alnum (lower ''visit https://example.com now''))"
    using h by (simp add: url_words_https)
  show "clean_text ''visit http://example.com now'' stopwords = ''visit http example com now''"
    by (simp only: clean_text_def normalise_untouched [OF url_no_underscore(1) a] url_words url_rest)
  show "clean_text ''visit https://example.com now'' stopwords = ''visit  example com now''"
    by (simp only: clean_text_def normalise_untouched [OF url_no_underscore(2) b] url_words_https
                   url_rest_https)
next
  assume "''http'' \<notin> set stopwords"
  then show "clean_text ''http'' stopwords = ''http''" by (rule bare_http)
qed

theorem clean_text_url_witness:
  "clean_text ''visit http://example.com now'' [''please''] = ''visit http example com now''
   \<and> clean_text ''visit https://example.com now'' [''please''] = ''visit  example com now''
   \<and> clean_text ''http'' [''please''] = ''http''"
proof -
  have l: "\<forall>w \<in> set [''please'']. literal w" by code_simp
  have h: "\<forall>w \<in> set [''please'']. (\<forall>c \<in> set w. is_alnum c)
             \<and> w \<notin> set [''visit'', ''http'', ''https'', ''example'', ''com'', ''now'']"
    by code_simp
  have n: "''http'' \<notin> set [''please'']" by simp
  show ?thesis
    using clean_text_url [OF l] h n by blast
qed

lemma lower_char_underscore:
  assumes "lower_char c = CHR ''_''"
  shows "c = CHR ''_''"
proof (cases "is_upper c")
  case True
  with assms have "char_of ((of_char c :: nat) + 32) = CHR ''_''" by (simp add: lower_char_def)
  then have "(of_char (char_of ((of_char c :: nat) + 32) :: char) :: nat) = of_char CHR ''_''"
    by simp
  then have "((of_char c :: nat) + 32) mod 256 = 95" by simp
  with True show ?thesis by (simp add: is_upper_def)
next
  case False
  with assms show ?thesis by (simp add: lower_char_def)
qed

lemma lower_no_underscore:
  assumes "CHR ''_'' \<notin> set s"
  shows "CHR ''_'' \<notin> set (lower s)"
proof
  assume "CHR ''_'' \<in> set (lower s)"
  then obtain x where "x \<in> set s" "lower_char x = CHR ''_''" by (auto simp: lower_def)
  then have "CHR ''_'' \<in> set s" by (auto dest: lower_char_underscore)
  with assms show False by blast
qed

lemma alnum_word: "is_alnum c \<Longrightarrow> is_word c"
  by (simp add: is_word_def)

text \<open>
  Each further hypothesis of the idempotence below is needed. \<open>\b\<close> takes the underscore
  for a word character and the fourth step removes it, so a stopword can appear only
  after the first pass; and a stopword with a space in it can match only once the
  punctuation between two words has become a space.
\<close>

lemma underscore_not_idempotent:
  "clean_text ''_me'' [''me''] = ''me'' \<and> clean_text ''me'' [''me''] = []"
  by code_simp

lemma spaced_stopword_not_idempotent:
  "clean_text ''a.b'' [''a b''] = ''a b'' \<and> clean_text ''a b'' [''a b''] = []"
  by code_simp

text \<open>
  C1, as the code has it. Take an ASCII text without underscore, and literal stopwords
  each of which either consists of letters and digits or has a character that is neither
  a letter, a digit nor a space. Whenever the URL pattern of the sixth step removes
  nothing from the text that the first five steps give, cleaning the cleaned text again
  changes nothing.
\<close>

theorem clean_text_idempotent:
  assumes ascii: "\<forall>c \<in> set text. (of_char c :: nat) < 128"
      and nu: "CHR ''_'' \<notin> set text"
      and sw: "\<forall>w \<in> set stopwords. literal w \<and>
                ((\<forall>c \<in> set w. is_alnum c) \<or> (\<exists>c \<in> set w. \<not> is_alnum c \<and> c \<noteq> CHR '' ''))"
      and url: "clean_text text stopwords = normalise text stopwords"
  shows "clean_text (clean_text text stopwords) stopwords = clean_text text stopwords"
proof -
  define y where "y = remove_stopwords stopwords (lower text)"
  define ts where "ts = runs is_alnum y"
  define t where "t = unwords ts"
  have nu': "CHR ''_'' \<notin> set (lower text)" using nu by (rule lower_no_underscore)
  have n: "normalise text stopwords = t"
    unfolding t_def ts_def y_def by (rule normalise_tokens(1) [OF nu'])
  have sub: "set ts \<subseteq> set (runs is_alnum (lower text)) - set stopwords"
    unfolding ts_def y_def by (rule normalise_tokens(2) [OF nu'])
  have g: "good_tokens is_alnum ts" unfolding ts_def by (rule good_runs)
  have c: "clean_text text stopwords = t" using url n by simp
  have su: "strip_urls t = t" using url n by (simp add: clean_text_def)
  have chars_y: "set y \<subseteq> insert CHR '' '' (set (lower text))"
    unfolding y_def remove_stopwords_def by (rule set_sub_scan)
  have chars_ts: "\<Union> (set ` set ts) \<subseteq> set y" unfolding ts_def by (rule set_runs)
  have chars_t: "set t \<subseteq> insert CHR '' '' (set (lower text))"
    using set_unwords [of ts] chars_ts chars_y unfolding t_def by blast
  have low: "lower t = t" using chars_t by (rule lower_fixed)
  have nut: "CHR ''_'' \<notin> set t" using chars_t nu' by auto
  have rt: "runs is_alnum t = ts"
    unfolding t_def using g by (rule runs_unwords) (rule space_not_alnum)
  have rtw: "runs is_word t = ts"
    using nut rt runs_cong [of t is_word is_alnum] by (metis word_alnum)
  define alts where "alts = alternatives stopwords"
  define A where "A = {c. is_alnum c \<or> c = CHR '' ''}"
  have words: "\<forall>w \<in> set alts. (\<forall>c \<in> set w. is_word c) \<or> (\<exists>c \<in> set w. c \<notin> A)"
  proof
    fix w assume "w \<in> set alts"
    then have "w = [] \<or> w \<in> set stopwords"
      by (auto simp: alts_def alternatives_def split: if_splits)
    then show "(\<forall>c \<in> set w. is_word c) \<or> (\<exists>c \<in> set w. c \<notin> A)"
      using sw by (auto simp: A_def alnum_word)
  qed
  have inA: "set t \<subseteq> A"
    using set_unwords [of ts] g by (auto simp: t_def A_def good_tokens_def)
  have absent: "\<forall>w \<in> set alts. w \<noteq> [] \<longrightarrow> w \<notin> set (word_runs_after None t)"
    using sub by (auto simp: alts_def alternatives_def word_runs_after_def prev_is_word_def rtw
                       split: if_splits)
  define y2 where "y2 = remove_stopwords stopwords t"
  have r2: "runs is_word y2 = ts"
    using scan_keeps [OF words inA absent, of False]
    by (simp add: y2_def remove_stopwords_def alts_def rtw)
  have "set y2 \<subseteq> insert CHR '' '' (set t)"
    unfolding y2_def remove_stopwords_def by (rule set_sub_scan)
  with nut have "CHR ''_'' \<notin> set y2" by auto
  then have "runs is_alnum y2 = runs is_word y2"
    using runs_cong [of y2 is_alnum is_word] by (metis word_alnum)
  with r2 have r2a: "runs is_alnum y2 = ts" by simp
  have "normalise t stopwords = unwords (runs is_alnum (remove_stopwords stopwords (lower t)))"
    by (simp add: normalise_def normalised_form)
  also have "\<dots> = unwords ts" by (simp only: low y2_def [symmetric] r2a)
  also have "\<dots> = t" by (simp only: t_def)
  finally have "normalise t stopwords = t" .
  then have "clean_text t stopwords = t" by (simp add: clean_text_def su)
  then show ?thesis by (simp add: c)
qed

lemma sample_normalise: "normalise ''Hi! Please Give me some text.'' [''please'', ''me''] = ''hi give some text''"
  by code_simp

theorem clean_text_idempotent_witness:
  "CHR ''_'' \<notin> set ''Hi! Please Give me some text.''
   \<and> clean_text ''Hi! Please Give me some text.'' [''please'', ''me''] = ''hi give some text''
   \<and> normalise ''Hi! Please Give me some text.'' [''please'', ''me''] = ''hi give some text''
   \<and> clean_text ''hi give some text'' [''please'', ''me''] = ''hi give some text''"
proof -
  have a: "\<forall>c \<in> set ''Hi! Please Give me some text.''. (of_char c :: nat) < 128" by simp
  have b: "CHR ''_'' \<notin> set ''Hi! Please Give me some text.''" by simp
  have c: "\<forall>w \<in> set [''please'', ''me'']. literal w \<and>
             ((\<forall>c \<in> set w. is_alnum c) \<or> (\<exists>c \<in> set w. \<not> is_alnum c \<and> c \<noteq> CHR '' ''))"
    by code_simp
  have e: "clean_text ''Hi! Please Give me some text.'' [''please'', ''me''] = ''hi give some text''"
    by code_simp
  have d: "clean_text ''Hi! Please Give me some text.'' [''please'', ''me'']
         = normalise ''Hi! Please Give me some text.'' [''please'', ''me'']"
    by (simp only: e sample_normalise)
  show ?thesis
    using b e sample_normalise clean_text_idempotent [OF a b c d] by simp
qed

text \<open>
  C1 as stated fails: for \<open>a https b\<close> the sixth step removes \<open>https\<close> after the white
  space has been collapsed, which leaves two spaces; the second application collapses them.
\<close>

theorem clean_text_twice_counterexample:
  "clean_text ''a https b'' [''the''] = ''a  b''
   \<and> clean_text (clean_text ''a https b'' [''the'']) [''the''] = ''a b''
   \<and> clean_text (clean_text ''a https b'' [''the'']) [''the''] \<noteq> clean_text ''a https b'' [''the'']"
proof -
  have a: "clean_text ''a https b'' [''the''] = ''a  b''" by code_simp
  have b: "clean_text ''a  b'' [''the''] = ''a b''" by code_simp
  show ?thesis by (simp add: a b)
qed

end
